theory Spec2Isabelle
  imports Main "HOL-Library.AList"
begin

section \<open>JavaScript values\<close>

text \<open>
  A JavaScript value is a primitive or a reference to an object. Numbers are modelled
  as integers plus \<open>NaN\<close>, the one number that is not strictly equal to itself;
  fractions and infinities play no part in the code modelled here. Objects live in a
  heap and are reached through \<open>JRef\<close>, so that two references to the same object
  are visible as such.
\<close>

type_synonym addr = nat

datatype jsval =
    JUndef
  | JNull
  | JBool bool
  | JNum int
  | JNaN
  | JStr string
  | JRef addr

text \<open>\<open>if (v)\<close>: the values JavaScript treats as false are \<open>undefined\<close>,
  \<open>null\<close>, \<open>false\<close>, \<open>0\<close>, \<open>NaN\<close> and the empty string.\<close>

fun truthy :: "jsval \<Rightarrow> bool" where
  "truthy JUndef = False"
| "truthy JNull = False"
| "truthy (JBool b) = b"
| "truthy (JNum n) = (n \<noteq> 0)"
| "truthy JNaN = False"
| "truthy (JStr s) = (s \<noteq> [])"
| "truthy (JRef a) = True"

text \<open>\<open>a === b\<close>: equality of primitives and identity of references, except
  that \<open>NaN === NaN\<close> is false.\<close>

fun strictEq :: "jsval \<Rightarrow> jsval \<Rightarrow> bool" where
  "strictEq JNaN b = False"
| "strictEq a JNaN = False"
| "strictEq a b = (a = b)"

section \<open>The cache (js/utils/cache.js)\<close>

text \<open>
  \<open>memoryCache\<close> is a JavaScript \<open>Map\<close>: it iterates in insertion order, and
  \<open>set\<close> on a key that is present replaces the value where it stands. A list of
  pairs with \<open>AList.update\<close> (replace in place, else append), \<open>AList.delete\<close>
  and \<open>map_of\<close> has exactly this behaviour. Time is the value of \<open>Date.now()\<close>
  at the call, passed as \<open>now\<close>.
\<close>

record cacheItem =
  item_value :: jsval
  item_timestamp :: int
  item_ttl :: int

type_synonym jsmap = "(string \<times> cacheItem) list"

text \<open>The durable tier \<open>db\<close> is \<open>None\<close> while IndexedDB is missing or not yet
  open; its object store is keyed by \<open>key\<close>. Failing IndexedDB requests are not
  modelled.\<close>

record cacheManager =
  memoryCache :: jsmap
  maxMemorySize :: nat
  db :: "jsmap option"

definition newCacheManager :: cacheManager where
  "newCacheManager = \<lparr>memoryCache = [], maxMemorySize = 50, db = None\<rparr>"

text \<open>\<open>this.memoryCache.keys().next().value\<close> followed by \<open>delete\<close>: on an empty
  map the first key is \<open>undefined\<close> and nothing is deleted.\<close>

definition deleteFirstKey :: "jsmap \<Rightarrow> jsmap" where
  "deleteFirstKey m = (case m of [] \<Rightarrow> [] | (firstKey, _) # _ \<Rightarrow> AList.delete firstKey m)"

text \<open>\<open>setMemory(key, value, ttl = 300000)\<close>; a \<open>ttl\<close> of \<open>None\<close> is the
  argument left \<open>undefined\<close>.\<close>

definition setMemory :: "int \<Rightarrow> string \<Rightarrow> jsval \<Rightarrow> int option \<Rightarrow> cacheManager \<Rightarrow> cacheManager" where
  "setMemory now key v ttl c =
     (let m = (if length (memoryCache c) \<ge> maxMemorySize c
               then deleteFirstKey (memoryCache c) else memoryCache c)
      in c\<lparr>memoryCache :=
           AList.update key
             \<lparr>item_value = v, item_timestamp = now,
              item_ttl = (case ttl of None \<Rightarrow> 300000 | Some t \<Rightarrow> t)\<rparr> m\<rparr>)"

text \<open>\<open>getMemory(key)\<close> returns \<open>null\<close> for a key that is absent or expired, and
  deletes the expired entry.\<close>

definition getMemory :: "int \<Rightarrow> string \<Rightarrow> cacheManager \<Rightarrow> jsval \<times> cacheManager" where
  "getMemory now key c =
     (case map_of (memoryCache c) key of
        None \<Rightarrow> (JNull, c)
      | Some item \<Rightarrow>
          if now - item_timestamp item > item_ttl item
          then (JNull, c\<lparr>memoryCache := AList.delete key (memoryCache c)\<rparr>)
          else (item_value item, c))"

text \<open>\<open>setDB(key, value, ttl = 3600000)\<close> and \<open>getDB(key)\<close>.\<close>

definition setDB :: "int \<Rightarrow> string \<Rightarrow> jsval \<Rightarrow> int option \<Rightarrow> cacheManager \<Rightarrow> bool \<times> cacheManager" where
  "setDB now key v ttl c =
     (case db c of
        None \<Rightarrow> (False, c)
      | Some store \<Rightarrow>
          (True, c\<lparr>db := Some (AList.update key
             \<lparr>item_value = v, item_timestamp = now,
              item_ttl = (case ttl of None \<Rightarrow> 3600000 | Some t \<Rightarrow> t)\<rparr> store)\<rparr>))"

definition getDB :: "int \<Rightarrow> string \<Rightarrow> cacheManager \<Rightarrow> jsval \<times> cacheManager" where
  "getDB now key c =
     (case db c of
        None \<Rightarrow> (JNull, c)
      | Some store \<Rightarrow>
          (case map_of store key of
             None \<Rightarrow> (JNull, c)
           | Some item \<Rightarrow>
               if now - item_timestamp item > item_ttl item
               then (JNull, c\<lparr>db := Some (AList.delete key store)\<rparr>)
               else (item_value item, c)))"

text \<open>The unified interface: \<open>set(key, value, {useDB = false, ttl})\<close> and
  \<open>get(key, {useDB = false})\<close>.\<close>

definition cache_set :: "int \<Rightarrow> string \<Rightarrow> jsval \<Rightarrow> bool \<Rightarrow> int option \<Rightarrow> cacheManager \<Rightarrow> bool \<times> cacheManager" where
  "cache_set now key v useDB ttl c =
     (if useDB then setDB now key v ttl c else (True, setMemory now key v ttl c))"

definition cache_get :: "int \<Rightarrow> string \<Rightarrow> bool \<Rightarrow> cacheManager \<Rightarrow> jsval \<times> cacheManager" where
  "cache_get now key useDB c = (if useDB then getDB now key c else getMemory now key c)"

text \<open>A history of fast-tier calls: \<open>SetOp now key value ttl\<close> is
  \<open>setMemory(key, value, ttl)\<close> and \<open>GetOp now key\<close> is \<open>getMemory(key)\<close>,
  each at time \<open>now\<close>.\<close>

datatype cacheOp = SetOp int string jsval "int option" | GetOp int string

fun runOp :: "cacheOp \<Rightarrow> cacheManager \<Rightarrow> cacheManager" where
  "runOp (SetOp now key v ttl) c = setMemory now key v ttl c"
| "runOp (GetOp now key) c = snd (getMemory now key c)"

definition runOps :: "cacheOp list \<Rightarrow> cacheManager \<Rightarrow> cacheManager" where
  "runOps ops c = fold runOp ops c"

text \<open>The entry a \<open>SetOp\<close> writes (a \<open>GetOp\<close> writes none; its row only
  makes the function total).\<close>

fun itemOf :: "cacheOp \<Rightarrow> string \<times> cacheItem" where
  "itemOf (SetOp now key v ttl) =
     (key, \<lparr>item_value = v, item_timestamp = now,
            item_ttl = (case ttl of None \<Rightarrow> 300000 | Some t \<Rightarrow> t)\<rparr>)"
| "itemOf (GetOp now key) = (key, \<lparr>item_value = JUndef, item_timestamp = now, item_ttl = 0\<rparr>)"

fun isSet :: "cacheOp \<Rightarrow> bool" where
  "isSet (SetOp now key v ttl) = True"
| "isSet (GetOp now key) = False"

definition inserted :: "cacheOp list \<Rightarrow> (string \<times> cacheItem) list" where
  "inserted ops = map itemOf (filter isSet ops)"

fun readTime :: "cacheOp \<Rightarrow> int" where
  "readTime (SetOp now key v ttl) = now"
| "readTime (GetOp now key) = now"

text \<open>The test of \<open>getMemory\<close>, negated: the entry is still served at \<open>now\<close>.\<close>

definition unexpiredAt :: "int \<Rightarrow> string \<times> cacheItem \<Rightarrow> bool" where
  "unexpiredAt now e = (now - item_timestamp (snd e) \<le> item_ttl (snd e))"

section \<open>The error handler (js/utils/errors.js)\<close>

text \<open>
  An error is an \<open>Error\<close> object, known here by its \<open>message\<close>; \<open>None\<close> is
  \<open>null\<close>. An exception that leaves a function is a value of type \<open>exn\<close>.
\<close>

datatype exn = TypeError string

definition toLowerChar :: "char \<Rightarrow> char" where
  "toLowerChar ch =
     (if 65 \<le> (of_char ch :: nat) \<and> (of_char ch :: nat) \<le> 90
      then char_of ((of_char ch :: nat) + 32) else ch)"

definition toLowerCase :: "string \<Rightarrow> string" where
  "toLowerCase s = map toLowerChar s"

fun str_includes :: "string \<Rightarrow> string \<Rightarrow> bool" where
  "str_includes [] k = (k = [])"
| "str_includes (ch # s) k = (take (length k) (ch # s) = k \<or> str_includes s k)"

definition criticalKeywords :: "string list" where
  "criticalKeywords = [''network'', ''database'', ''auth'', ''payment'']"

text \<open>
  \<open>isCriticalError(error)\<close> computes \<open>(error?.message || error || '').toLowerCase()\<close>.
  For an error whose message is empty the first operand is falsy, the expression is
  the error object itself, and calling \<open>toLowerCase\<close> on it raises a \<open>TypeError\<close>.
\<close>

definition isCriticalError :: "string option \<Rightarrow> exn + bool" where
  "isCriticalError err =
     (case err of
        None \<Rightarrow> Inr (list_ex (str_includes (toLowerCase [])) criticalKeywords)
      | Some m \<Rightarrow>
          if m = [] then Inl (TypeError ''toLowerCase is not a function'')
          else Inr (list_ex (str_includes (toLowerCase m)) criticalKeywords))"

text \<open>The \<open>errorInfo\<close> object. \<open>info_message\<close> is \<open>error?.message || error\<close>: the
  message when it is not empty, otherwise (\<open>None\<close>) the error value itself. The
  \<open>timestamp\<close>, \<open>userAgent\<close> and \<open>url\<close> fields come from the browser and are left
  out; the context is the one \<open>execute\<close> passes.\<close>

record errorInfo =
  info_message :: "string option"
  info_type :: string
  info_cacheKey :: "string option"
  info_retries :: nat

text \<open>\<open>handleError\<close> calls every listener with the \<open>errorInfo\<close> (a listener that
  throws is caught), then asks \<open>isCriticalError\<close>, then returns the \<open>errorInfo\<close>.
  The report of a critical error only writes to the console.\<close>

record errorHandler =
  listeners :: "nat list"
  heard :: "(nat \<times> errorInfo) list"

definition handleError :: "string option \<Rightarrow> string \<Rightarrow> string option \<Rightarrow> nat \<Rightarrow> errorHandler \<Rightarrow> (exn + errorInfo) \<times> errorHandler" where
  "handleError err ty cacheKey retries eh =
     (let info = \<lparr>info_message = (case err of None \<Rightarrow> None | Some m \<Rightarrow> if m = [] then None else Some m),
                   info_type = ty, info_cacheKey = cacheKey, info_retries = retries\<rparr>;
          eh' = eh\<lparr>heard := heard eh @ map (\<lambda>l. (l, info)) (listeners eh)\<rparr>
      in (case isCriticalError err of
            Inl e \<Rightarrow> (Inl e, eh')
          | Inr critical \<Rightarrow> (Inr info, eh')))"

section \<open>The data orchestrator (js/services/supabase-service.js)\<close>

text \<open>
  What one call of \<open>queryFn\<close> does: it throws an error, or resolves to a result
  object. Of a result object \<open>execute\<close> reads \<open>error\<close> and \<open>data\<close>; \<open>extra\<close>
  holds its other properties. \<open>error\<close> is \<open>None\<close> when falsy and otherwise the
  message of \<open>new Error(result.error.message)\<close>, which is empty when the error has
  no message. A call that resolves to \<open>null\<close> or \<open>undefined\<close> makes
  \<open>result.error\<close> throw, and counts as a call that throws.
\<close>

record response =
  data :: jsval
  error :: "string option"
  extra :: "(string \<times> jsval) list"

datatype outcome = Throws string | Resolves response

text \<open>The options object; \<open>None\<close> is a property left out, which takes the default of
  the destructuring in \<open>execute\<close>.\<close>

record options =
  useCache :: "bool option"
  cacheTTL :: "int option"
  useDB :: "bool option"
  retries :: "nat option"

record supabaseService =
  retryAttempts :: nat
  retryDelay :: int

definition newSupabaseService :: supabaseService where
  "newSupabaseService = \<lparr>retryAttempts = 3, retryDelay = 1000\<rparr>"

text \<open>
  The world \<open>execute\<close> acts on: the cache singleton, the error handler singleton, the
  clock read by \<open>Date.now()\<close>, the list of delays slept so far and the number of
  times an operation has been invoked. \<open>delay(ms)\<close> moves the clock by \<open>ms\<close>; the
  time a remote call takes is not modelled.
\<close>

record world =
  cache :: cacheManager
  handler :: errorHandler
  clock :: int
  delays :: "int list"
  invocations :: nat

definition delay :: "int \<Rightarrow> world \<Rightarrow> world" where
  "delay ms w = w\<lparr>clock := clock w + ms, delays := delays w @ [ms]\<rparr>"

text \<open>The three objects \<open>execute\<close> can return:
  \<open>{ data: cached, error: null, fromCache: true }\<close>, the operation's own result
  object, and \<open>{ data: null, error: lastError, errorInfo }\<close>.\<close>

datatype execResult =
    CacheHit jsval
  | OperationResult response
  | Exhausted "string option" errorInfo

fun result_data :: "execResult \<Rightarrow> jsval" where
  "result_data (CacheHit cached) = cached"
| "result_data (OperationResult r) = data r"
| "result_data (Exhausted lastError info) = JNull"


text \<open>\<open>cacheKey\<close> is a string or \<open>null\<close>; \<open>if (cacheKey)\<close> holds for a non-empty
  string.\<close>

fun keyTruthy :: "string option \<Rightarrow> bool" where
  "keyTruthy None = False"
| "keyTruthy (Some k) = (k \<noteq> [])"

text \<open>What the \<open>try\<close> block makes of one call: \<open>Some m\<close> when the call throws or its
  result carries an error (\<open>throw new Error(result.error.message)\<close>).\<close>

fun failure :: "outcome \<Rightarrow> string option" where
  "failure (Throws m) = Some m"
| "failure (Resolves r) = error r"

fun resolved :: "outcome \<Rightarrow> response" where
  "resolved (Resolves r) = r"
| "resolved (Throws m) = \<lparr>data = JUndef, error = Some m, extra = []\<rparr>"

text \<open>The retry loop \<open>for (let attempt = 1; attempt <= retries; attempt++)\<close>.
  \<open>queryFn attempt\<close> is what the call made at that attempt does.\<close>

function attempts ::
  "supabaseService \<Rightarrow> (nat \<Rightarrow> outcome) \<Rightarrow> string option \<Rightarrow> bool \<Rightarrow> int \<Rightarrow> bool \<Rightarrow> nat
     \<Rightarrow> nat \<Rightarrow> string option \<Rightarrow> world \<Rightarrow> (string option + response) \<times> world" where
  "attempts svc queryFn cacheKey useCache' cacheTTL' useDB' retries' attempt lastError w =
     (if attempt \<le> retries' then
        (let w1 = w\<lparr>invocations := Suc (invocations w)\<rparr> in
         case failure (queryFn attempt) of
           None \<Rightarrow>
             (let result = resolved (queryFn attempt) in
              if useCache' \<and> keyTruthy cacheKey \<and> truthy (data result)
              then (Inr result,
                    w1\<lparr>cache := snd (cache_set (clock w1) (the cacheKey) (data result) useDB'
                                       (Some cacheTTL') (cache w1))\<rparr>)
              else (Inr result, w1))
         | Some m \<Rightarrow>
             attempts svc queryFn cacheKey useCache' cacheTTL' useDB' retries' (Suc attempt) (Some m)
               (if attempt < retries' then delay (retryDelay svc * int attempt) w1 else w1))
      else (Inl lastError, w))"
  by pat_completeness auto
termination
  by (relation "measure (\<lambda>(svc, queryFn, cacheKey, useCache', cacheTTL', useDB', retries', attempt, lastError, w).
        Suc retries' - attempt)") auto

text \<open>The backoff delays slept after the failed attempts \<open>a, \<dots>, k - 1\<close>, and the
  world after those failures: the clock moved by the delays, the delays logged, one
  invocation counted per attempt.\<close>

definition backoffs :: "supabaseService \<Rightarrow> nat \<Rightarrow> nat \<Rightarrow> int list" where
  "backoffs svc a k = map (\<lambda>j. retryDelay svc * int j) [a..<k]"

definition afterFailures :: "supabaseService \<Rightarrow> nat \<Rightarrow> nat \<Rightarrow> world \<Rightarrow> world" where
  "afterFailures svc a k w =
     w\<lparr>clock := clock w + sum_list (backoffs svc a k),
       delays := delays w @ backoffs svc a k,
       invocations := invocations w + (k - a)\<rparr>"

text \<open>The \<open>cacheManager.set\<close> of a successful attempt.\<close>

definition storeResult :: "string option \<Rightarrow> bool \<Rightarrow> int \<Rightarrow> bool \<Rightarrow> response \<Rightarrow> world \<Rightarrow> world" where
  "storeResult cacheKey uc ttl udb r w =
     (if uc \<and> keyTruthy cacheKey \<and> truthy (data r)
      then w\<lparr>cache := snd (cache_set (clock w) (the cacheKey) (data r) udb (Some ttl) (cache w))\<rparr>
      else w)"

text \<open>The destructuring at the head of \<open>execute\<close>, with its defaults:
  \<open>{ useCache = true, cacheTTL = 300000, useDB = false, retries = this.retryAttempts }\<close>.\<close>

definition destructure :: "supabaseService \<Rightarrow> options \<Rightarrow> bool \<times> int \<times> bool \<times> nat" where
  "destructure svc opts =
     ((case useCache opts of None \<Rightarrow> True | Some b \<Rightarrow> b),
      (case cacheTTL opts of None \<Rightarrow> 300000 | Some t \<Rightarrow> t),
      (case useDB opts of None \<Rightarrow> False | Some b \<Rightarrow> b),
      (case retries opts of None \<Rightarrow> retryAttempts svc | Some n \<Rightarrow> n))"

text \<open>\<open>execute(queryFn, cacheKey = null, options = {})\<close>. \<open>Inl\<close> is an exception
  leaving \<open>execute\<close> (the promise it returns is rejected).\<close>

definition execute ::
  "supabaseService \<Rightarrow> (nat \<Rightarrow> outcome) \<Rightarrow> string option \<Rightarrow> options \<Rightarrow> world
     \<Rightarrow> (exn + execResult) \<times> world" where
  "execute svc queryFn cacheKey opts w =
     (case destructure svc opts of (useCache', cacheTTL', useDB', retries') \<Rightarrow>
        (case (if useCache' \<and> keyTruthy cacheKey
               then (case cache_get (clock w) (the cacheKey) useDB' (cache w) of
                       (v, c) \<Rightarrow> (v, w\<lparr>cache := c\<rparr>))
               else (JUndef, w)) of
           (cached, w0) \<Rightarrow>
             if useCache' \<and> keyTruthy cacheKey \<and> truthy cached then (Inr (CacheHit cached), w0)
             else (case attempts svc queryFn cacheKey useCache' cacheTTL' useDB' retries' 1 None w0 of
                     (Inr result, w1) \<Rightarrow> (Inr (OperationResult result), w1)
                   | (Inl lastError, w1) \<Rightarrow>
                       (case handleError lastError ''supabase'' cacheKey retries' (handler w1) of
                          (Inl e, eh) \<Rightarrow> (Inl e, w1\<lparr>handler := eh\<rparr>)
                        | (Inr info, eh) \<Rightarrow>
                            (Inr (Exhausted lastError info), w1\<lparr>handler := eh\<rparr>)))))"

definition newWorld :: world where
  "newWorld = \<lparr>cache = newCacheManager, handler = \<lparr>listeners = [], heard = []\<rparr>,
               clock = 0, delays = [], invocations = 0\<rparr>"




text \<open>\<open>invalidateCache(pattern)\<close>. Each branch calls \<open>cacheManager.get\<close> on the
  aggregate key; the \<open>products\<close> branch then deletes from the fast tier every key
  that starts with \<open>product_\<close>.\<close>

definition startsWith :: "string \<Rightarrow> string \<Rightarrow> bool" where
  "startsWith s p = (take (length p) s = p)"

definition invalidateCache :: "int \<Rightarrow> string \<Rightarrow> cacheManager \<Rightarrow> cacheManager" where
  "invalidateCache now pattern c =
     (if pattern = ''products'' then
        (let c1 = snd (cache_get now ''products_all'' False c);
             keys = filter (\<lambda>key. startsWith key ''product_'') (map fst (memoryCache c1))
         in c1\<lparr>memoryCache := fold AList.delete keys (memoryCache c1)\<rparr>)
      else if pattern = ''categories'' then snd (cache_get now ''categories_all'' False c)
      else if pattern = ''settings'' then snd (cache_get now ''store_settings'' False c)
      else c)"

text \<open>A fast tier filled at time 0 with the default time-to-live of five minutes.\<close>

definition staleCache :: cacheManager where
  "staleCache =
     setMemory 0 ''store_settings'' (JRef 3) None
       (setMemory 0 ''categories_all'' (JRef 2) None
         (setMemory 0 ''product_7'' (JRef 1) None
           (setMemory 0 ''products_all'' (JRef 0) None newCacheManager)))"

section \<open>Objects and the heap\<close>

text \<open>
  The heap is the list of the objects allocated so far; an address is an index into
  it, and allocation appends. The objects are those \<open>deepClone\<close> tells apart:
  arrays, dates (by their time value) and plain objects, whose properties are kept in
  insertion order (keys that look like array indices, which JavaScript lists first,
  are not treated apart). Reading a property that is not there gives \<open>undefined\<close>;
  \<open>obj[key] = value\<close> replaces the property where it stands or appends it.
\<close>

type_synonym props = "(string \<times> jsval) list"

datatype jsobj = JArr "jsval list" | JObj props | JDate int

type_synonym heap = "jsobj list"

definition alloc :: "jsobj \<Rightarrow> heap \<Rightarrow> jsval \<times> heap" where
  "alloc ob h = (JRef (length h), h @ [ob])"

definition lookup :: "heap \<Rightarrow> addr \<Rightarrow> jsobj option" where
  "lookup h a = (if a < length h then Some (h ! a) else None)"

definition readProp :: "props \<Rightarrow> string \<Rightarrow> jsval" where
  "readProp ps key = (case map_of ps key of None \<Rightarrow> JUndef | Some x \<Rightarrow> x)"

definition getProp :: "heap \<Rightarrow> jsval \<Rightarrow> string \<Rightarrow> jsval" where
  "getProp h v key =
     (case v of
        JRef a \<Rightarrow> (case lookup h a of Some (JObj ps) \<Rightarrow> readProp ps key | _ \<Rightarrow> JUndef)
      | _ \<Rightarrow> JUndef)"

definition setProp :: "jsval \<Rightarrow> string \<Rightarrow> jsval \<Rightarrow> heap \<Rightarrow> heap" where
  "setProp v key x h =
     (case v of
        JRef a \<Rightarrow> (case lookup h a of Some (JObj ps) \<Rightarrow> h[a := JObj (AList.update key x ps)] | _ \<Rightarrow> h)
      | _ \<Rightarrow> h)"

definition objectKeys :: "heap \<Rightarrow> jsval \<Rightarrow> string list" where
  "objectKeys h v =
     (case v of
        JRef a \<Rightarrow> (case lookup h a of Some (JObj ps) \<Rightarrow> map fst ps | _ \<Rightarrow> [])
      | _ \<Rightarrow> [])"

subsection \<open>deepClone\<close>

text \<open>
  \<open>deepClone\<close> recurses through arrays and plain objects. \<open>depth\<close> is the number of
  nested calls the stack still allows; \<open>None\<close> is the \<open>RangeError\<close> of a stack that
  is exhausted, which is how the recursion ends on a cyclic value. A clone is
  allocated once its parts are cloned; where it lies in the heap is not observable.
\<close>

text \<open>\<open>obj.map(item => this.deepClone(item))\<close>\<close>

fun cloneItems :: "(heap \<Rightarrow> jsval \<Rightarrow> (jsval \<times> heap) option) \<Rightarrow> heap \<Rightarrow> jsval list \<Rightarrow> (jsval list \<times> heap) option" where
  "cloneItems f h [] = Some ([], h)"
| "cloneItems f h (item # items) =
     (case f h item of
        None \<Rightarrow> None
      | Some (y, h1) \<Rightarrow>
          (case cloneItems f h1 items of
             None \<Rightarrow> None
           | Some (ys, h2) \<Rightarrow> Some (y # ys, h2)))"

text \<open>\<open>Object.keys(obj).forEach(key => { copy[key] = this.deepClone(obj[key]); })\<close>\<close>

fun cloneProps :: "(heap \<Rightarrow> jsval \<Rightarrow> (jsval \<times> heap) option) \<Rightarrow> props \<Rightarrow> heap \<Rightarrow> string list \<Rightarrow> props \<Rightarrow> (props \<times> heap) option" where
  "cloneProps f obj h [] copy = Some (copy, h)"
| "cloneProps f obj h (key # keys) copy =
     (case f h (readProp obj key) of
        None \<Rightarrow> None
      | Some (y, h1) \<Rightarrow> cloneProps f obj h1 keys (AList.update key y copy))"

primrec deepClone :: "nat \<Rightarrow> heap \<Rightarrow> jsval \<Rightarrow> (jsval \<times> heap) option" where
  "deepClone 0 = (\<lambda>h v. None)"
| "deepClone (Suc depth) = (\<lambda>h v.
     (case v of
        JRef a \<Rightarrow>
          (case lookup h a of
             None \<Rightarrow> None
           | Some (JDate t) \<Rightarrow> Some (alloc (JDate t) h)
           | Some (JArr items) \<Rightarrow>
               (case cloneItems (deepClone depth) h items of
                  None \<Rightarrow> None
                | Some (ys, h1) \<Rightarrow> Some (alloc (JArr ys) h1))
           | Some (JObj ps) \<Rightarrow>
               (case cloneProps (deepClone depth) ps h (map fst ps) [] of
                  None \<Rightarrow> None
                | Some (copy, h1) \<Rightarrow> Some (alloc (JObj copy) h1)))
      | _ \<Rightarrow> Some (v, h)))"

subsection \<open>Deep equality\<close>

text \<open>
  What a value is, structurally: the tree obtained by following its references. Two
  values are deeply equal when they have the same tree. \<open>deepValue depth h v\<close> is
  \<open>None\<close> when \<open>v\<close> is nested deeper than \<open>depth\<close> (or cyclic), refers outside the
  heap, or reaches an object whose property list repeats a key, which no JavaScript
  object does.
\<close>

datatype jstree =
    TPrim jsval
  | TDate int
  | TArr "jstree list"
  | TObj "(string \<times> jstree) list"

fun itemValues :: "(jsval \<Rightarrow> jstree option) \<Rightarrow> jsval list \<Rightarrow> jstree list option" where
  "itemValues g [] = Some []"
| "itemValues g (x # xs) =
     (case g x of
        None \<Rightarrow> None
      | Some t \<Rightarrow> (case itemValues g xs of None \<Rightarrow> None | Some ts \<Rightarrow> Some (t # ts)))"

fun propValues :: "(jsval \<Rightarrow> jstree option) \<Rightarrow> props \<Rightarrow> (string \<times> jstree) list option" where
  "propValues g [] = Some []"
| "propValues g ((key, x) # ps) =
     (case g x of
        None \<Rightarrow> None
      | Some t \<Rightarrow> (case propValues g ps of None \<Rightarrow> None | Some ts \<Rightarrow> Some ((key, t) # ts)))"

primrec deepValue :: "nat \<Rightarrow> heap \<Rightarrow> jsval \<Rightarrow> jstree option" where
  "deepValue 0 = (\<lambda>h v. None)"
| "deepValue (Suc depth) = (\<lambda>h v.
     (case v of
        JRef a \<Rightarrow>
          (case lookup h a of
             None \<Rightarrow> None
           | Some (JDate t) \<Rightarrow> Some (TDate t)
           | Some (JArr items) \<Rightarrow> map_option TArr (itemValues (deepValue depth h) items)
           | Some (JObj ps) \<Rightarrow>
               if distinct (map fst ps)
               then map_option TObj (propValues (deepValue depth h) ps) else None)
      | _ \<Rightarrow> Some (TPrim v)))"

subsection \<open>Sharing\<close>

text \<open>The addresses a value and an object refer to. \<open>freshIn n h\<close>: the objects of
  \<open>h\<close> from address \<open>n\<close> on refer only to one another; \<open>freshVal n h v\<close>: \<open>v\<close> is a
  primitive or refers to one of them.\<close>

fun refOf :: "jsval \<Rightarrow> addr list" where
  "refOf (JRef a) = [a]"
| "refOf v = []"

fun refsOf :: "jsobj \<Rightarrow> addr list" where
  "refsOf (JArr items) = concat (map refOf items)"
| "refsOf (JObj ps) = concat (map (refOf \<circ> snd) ps)"
| "refsOf (JDate t) = []"

definition freshIn :: "nat \<Rightarrow> heap \<Rightarrow> bool" where
  "freshIn n h = (\<forall>ob \<in> set (drop n h). \<forall>a \<in> set (refsOf ob). n \<le> a \<and> a < length h)"

definition freshVal :: "nat \<Rightarrow> heap \<Rightarrow> jsval \<Rightarrow> bool" where
  "freshVal n h v = (\<forall>a \<in> set (refOf v). n \<le> a \<and> a < length h)"

section \<open>The state store (StateService)\<close>

text \<open>
  Subscribers and middleware are callbacks supplied by the caller, known here by a
  number. The store calls them inside \<open>try\<close>/\<open>catch\<close>; the model logs each call with
  its arguments in \<open>calls\<close>, and takes a callback to be an observer: it does not call
  back into the store, nor write to the objects it is handed. A subscriber may throw:
  \<open>throwers\<close> gives, for each subscriber that does, the message of the \<open>Error\<close> it
  throws when called. Middleware is taken to return normally.
\<close>

datatype call =
    Notified string nat jsval jsval
  | MiddlewareRun nat "(string \<times> jsval \<times> jsval) list" jsval jsval string


record historyEntry =
  h_timestamp :: int
  oldState :: jsval
  newState :: jsval
  h_source :: string

record stateService =
  heap :: heap
  state :: jsval
  subscribers :: "(string \<times> nat list) list"
  throwers :: "(nat \<times> string) list"
  middleware :: "nat list"
  history :: "historyEntry list"
  maxHistorySize :: nat
  calls :: "call list"

text \<open>The constructor. The heap holds, in this order, the arrays \<open>products\<close>,
  \<open>categories\<close>, \<open>shippingStates\<close> and \<open>cart\<close>, the object \<open>filters\<close>, the
  object \<open>modals\<close>, the array \<open>notifications\<close>, the object \<open>ui\<close> and the state
  document.\<close>

definition newStateService :: stateService where
  "newStateService =
     \<lparr>heap =
        [JArr [], JArr [], JArr [], JArr [],
         JObj [(''category'', JStr ''''), (''price'', JStr ''''), (''search'', JStr ''''),
               (''sort'', JStr ''newest'')],
         JObj [], JArr [],
         JObj [(''loading'', JBool False), (''modals'', JRef 5), (''notifications'', JRef 6)],
         JObj [(''products'', JRef 0), (''categories'', JRef 1), (''storeSettings'', JNull),
               (''shippingStates'', JRef 2), (''currentUser'', JNull), (''cart'', JRef 3),
               (''filters'', JRef 4), (''ui'', JRef 7)]],
      state = JRef 8, subscribers = [], throwers = [], middleware = [], history = [],
      maxHistorySize = 50, calls = []\<rparr>"

text \<open>
  \<open>subscribers\<close> is a plain object, created as \<open>{}\<close>: the list holds its own
  properties, and \<open>this.subscribers[key]\<close> for a key that is not among them is looked
  up in \<open>Object.prototype\<close>. For the names below the lookup finds a function (for
  \<open>__proto__\<close>, the prototype object itself): a truthy value that has neither
  \<open>push\<close> nor \<open>forEach\<close>. For any other key it gives \<open>undefined\<close>.
\<close>

definition inheritedNames :: "string list" where
  "inheritedNames =
     [''constructor'', ''hasOwnProperty'', ''isPrototypeOf'', ''propertyIsEnumerable'',
      ''toLocaleString'', ''toString'', ''valueOf'', ''__proto__'',
      ''__defineGetter__'', ''__defineSetter__'', ''__lookupGetter__'', ''__lookupSetter__'']"

text \<open>\<open>subscribe(key, callback)\<close>. Under an inherited name \<open>!this.subscribers[key]\<close>
  is false, no array is created, and \<open>this.subscribers[key].push\<close> is not a function.\<close>

definition subscribe :: "string \<Rightarrow> nat \<Rightarrow> stateService \<Rightarrow> exn + stateService" where
  "subscribe key cb s =
     (case map_of (subscribers s) key of
        Some cbs \<Rightarrow> Inr (s\<lparr>subscribers := AList.update key (cbs @ [cb]) (subscribers s)\<rparr>)
      | None \<Rightarrow>
          if key \<in> set inheritedNames then Inl (TypeError ''push is not a function'')
          else Inr (s\<lparr>subscribers := AList.update key [cb] (subscribers s)\<rparr>))"

text \<open>
  The \<open>forEach\<close> of \<open>notify\<close> over the callbacks of a key. Each callback is called
  inside \<open>try\<close>; what it throws is caught and passed to
  \<open>errorHandler.handleError(error, 'state-notification', { key })\<close>, outside any
  \<open>try\<close>. \<open>handleError\<close> hands an \<open>errorInfo\<close> to its listeners, which touches
  nothing of the store, and then calls \<open>isCriticalError(error)\<close>: when that throws,
  the exception leaves \<open>forEach\<close> and \<open>notify\<close>, and the callbacks that remain are
  not called.
\<close>

fun callEach :: "string \<Rightarrow> jsval \<Rightarrow> jsval \<Rightarrow> nat list \<Rightarrow> stateService \<Rightarrow> exn option \<times> stateService" where
  "callEach key newValue oldValue [] s = (None, s)"
| "callEach key newValue oldValue (cb # cbs) s =
     (let s1 = s\<lparr>calls := calls s @ [Notified key cb newValue oldValue]\<rparr> in
      case map_of (throwers s) cb of
        None \<Rightarrow> callEach key newValue oldValue cbs s1
      | Some m \<Rightarrow>
          (case isCriticalError (Some m) of
             Inl e \<Rightarrow> (Some e, s1)
           | Inr critical \<Rightarrow> callEach key newValue oldValue cbs s1))"

text \<open>\<open>notify(key, newValue, oldValue)\<close>. The result is the exception that leaves
  it, if any, and the store. For an inherited name with no own entry the test
  \<open>if (this.subscribers[key])\<close> passes and \<open>forEach\<close> is not a function.\<close>

definition notify :: "string \<Rightarrow> jsval \<Rightarrow> jsval \<Rightarrow> stateService \<Rightarrow> exn option \<times> stateService" where
  "notify key newValue oldValue s =
     (case map_of (subscribers s) key of
        Some cbs \<Rightarrow> callEach key newValue oldValue cbs s
      | None \<Rightarrow>
          if key \<in> set inheritedNames then (Some (TypeError ''forEach is not a function''), s)
          else (None, s))"

text \<open>\<open>saveToHistory(oldState, newState, source)\<close>\<close>

definition saveToHistory :: "nat \<Rightarrow> int \<Rightarrow> jsval \<Rightarrow> jsval \<Rightarrow> string \<Rightarrow> stateService \<Rightarrow> stateService option" where
  "saveToHistory depth now oldSt newSt source s =
     (case deepClone depth (heap s) oldSt of
        None \<Rightarrow> None
      | Some (oldClone, h1) \<Rightarrow>
          (case deepClone depth h1 newSt of
             None \<Rightarrow> None
           | Some (newClone, h2) \<Rightarrow>
               (let pushed = history s @
                      [\<lparr>h_timestamp = now, oldState = oldClone, newState = newClone,
                        h_source = source\<rparr>]
                in Some (s\<lparr>heap := h2,
                           history := (if length pushed > maxHistorySize s then tl pushed
                                       else pushed)\<rparr>))))"

text \<open>The first loop of \<open>setState\<close>, over \<open>Object.entries(updates)\<close>: a key whose
  slot is not strictly equal to the new value is recorded in \<open>changes\<close> and
  assigned.\<close>

fun applyUpdates :: "jsval \<Rightarrow> props \<Rightarrow> (string \<times> jsval \<times> jsval) list \<times> heap \<Rightarrow> (string \<times> jsval \<times> jsval) list \<times> heap" where
  "applyUpdates st [] (changes, h) = (changes, h)"
| "applyUpdates st ((key, v) # rest) (changes, h) =
     (if \<not> strictEq (getProp h st key) v
      then applyUpdates st rest (AList.update key (getProp h st key, v) changes, setProp st key v h)
      else applyUpdates st rest (changes, h))"

text \<open>The loop of \<open>setState\<close> over \<open>Object.entries(changes)\<close>; it ends with the
  first \<open>notify\<close> that throws.\<close>

fun notifyChanges :: "(string \<times> jsval \<times> jsval) list \<Rightarrow> stateService \<Rightarrow> exn option \<times> stateService" where
  "notifyChanges [] s = (None, s)"
| "notifyChanges ((key, old, new) # rest) s =
     (case notify key new old s of
        (Some e, s1) \<Rightarrow> (Some e, s1)
      | (None, s1) \<Rightarrow> notifyChanges rest s1)"

text \<open>\<open>setState(updates, source)\<close>, at time \<open>now\<close>; \<open>updates\<close> is given by its
  entries. It returns \<open>this.state\<close>; the result is \<open>None\<close> when an exception leaves
  it instead: that of a \<open>deepClone\<close> nested too deep, or the one \<open>notify\<close> throws,
  after which nothing is saved to the history.\<close>

definition setState :: "nat \<Rightarrow> int \<Rightarrow> props \<Rightarrow> string \<Rightarrow> stateService \<Rightarrow> (jsval \<times> stateService) option" where
  "setState depth now updates source s =
     (case deepClone depth (heap s) (state s) of
        None \<Rightarrow> None
      | Some (oldSt, h1) \<Rightarrow>
          (case applyUpdates (state s) updates ([], h1) of
             (changes, h2) \<Rightarrow>
               (let s1 = s\<lparr>heap := h2,
                           calls := calls s @
                             map (\<lambda>mw. MiddlewareRun mw changes (state s) oldSt source) (middleware s)\<rparr>
                in (case notifyChanges changes s1 of
                      (Some e, s2) \<Rightarrow> None
                    | (None, s2) \<Rightarrow>
                        (case saveToHistory depth now oldSt (state s2) source s2 of
                           None \<Rightarrow> None
                         | Some s3 \<Rightarrow> Some (state s3, s3))))))"

text \<open>\<open>getState(key = null)\<close>\<close>

definition getState :: "nat \<Rightarrow> string option \<Rightarrow> stateService \<Rightarrow> (jsval \<times> stateService) option" where
  "getState depth key s =
     (if keyTruthy key then Some (getProp (heap s) (state s) (the key), s)
      else (case deepClone depth (heap s) (state s) of
              None \<Rightarrow> None
            | Some (v, h1) \<Rightarrow> Some (v, s\<lparr>heap := h1\<rparr>)))"

text \<open>The loop of \<open>undo\<close> over \<open>Object.keys(this.state)\<close>, with \<open>oldSt\<close> the
  \<open>oldState\<close> of the entry restored; it ends with the first \<open>notify\<close> that throws.\<close>

fun notifyKeys :: "jsval \<Rightarrow> string list \<Rightarrow> stateService \<Rightarrow> exn option \<times> stateService" where
  "notifyKeys oldSt [] s = (None, s)"
| "notifyKeys oldSt (key # keys) s =
     (case notify key (getProp (heap s) (state s) key) (getProp (heap s) oldSt key) s of
        (Some e, s1) \<Rightarrow> (Some e, s1)
      | (None, s1) \<Rightarrow> notifyKeys oldSt keys s1)"

text \<open>\<open>undo()\<close>. The result is \<open>Inr\<close> of the boolean returned, or \<open>Inl\<close> of the
  exception that leaves \<open>undo\<close>, with the store as it then is; \<open>None\<close> when
  \<open>deepClone\<close> is nested too deep.\<close>

definition undo :: "nat \<Rightarrow> stateService \<Rightarrow> ((exn + bool) \<times> stateService) option" where
  "undo depth s =
     (if length (history s) < 2 then Some (Inr False, s)
      else
        (let previous = history s ! (length (history s) - 2) in
         case deepClone depth (heap s) (newState previous) of
           None \<Rightarrow> None
         | Some (st, h1) \<Rightarrow>
             (let s1 = s\<lparr>heap := h1, state := st, history := butlast (history s)\<rparr>
              in (case notifyKeys (oldState previous) (objectKeys h1 st) s1 of
                    (Some e, s2) \<Rightarrow> Some (Inl e, s2)
                  | (None, s2) \<Rightarrow> Some (Inr True, s2)))))"

text \<open>The callbacks subscribed under a key, in the order they subscribed.\<close>

definition subscribersOf :: "stateService \<Rightarrow> string \<Rightarrow> nat list" where
  "subscribersOf s key = (case map_of (subscribers s) key of None \<Rightarrow> [] | Some cbs \<Rightarrow> cbs)"

text \<open>Small stores for the examples: a document \<open>{ count: 0 }\<close> with subscriber 7
  on \<open>count\<close> and middleware 3; a document \<open>{ price: NaN }\<close> with subscriber 7 on
  \<open>price\<close>; and the first store after \<open>setState({ count: 1 }, 'a')\<close> at time 10 and
  \<open>setState({ count: 2 }, 'b')\<close> at time 20.\<close>

definition counterStore :: stateService where
  "counterStore =
     \<lparr>heap = [JObj [(''count'', JNum 0)]], state = JRef 0, subscribers = [(''count'', [7])],
      throwers = [], middleware = [3], history = [], maxHistorySize = 50, calls = []\<rparr>"


definition counterStoreSetTwice :: stateService where
  "counterStoreSetTwice =
     \<lparr>heap =
        [JObj [(''count'', JNum 2)], JObj [(''count'', JNum 0)],
         JObj [(''count'', JNum 0)], JObj [(''count'', JNum 1)],
         JObj [(''count'', JNum 1)], JObj [(''count'', JNum 1)],
         JObj [(''count'', JNum 2)]],
      state = JRef 0, subscribers = [(''count'', [7])], throwers = [], middleware = [3],
      history =
        [\<lparr>h_timestamp = 10, oldState = JRef 2, newState = JRef 3, h_source = ''a''\<rparr>,
         \<lparr>h_timestamp = 20, oldState = JRef 5, newState = JRef 6, h_source = ''b''\<rparr>],
      maxHistorySize = 50,
      calls =
        [MiddlewareRun 3 [(''count'', JNum 0, JNum 1)] (JRef 0) (JRef 1) ''a'',
         Notified ''count'' 7 (JNum 1) (JNum 0),
         MiddlewareRun 3 [(''count'', JNum 1, JNum 2)] (JRef 0) (JRef 4) ''b'',
         Notified ''count'' 7 (JNum 2) (JNum 1)]\<rparr>"

section \<open>The write queue (queueRequest, processQueue)\<close>

text \<open>
  JavaScript runs one piece of code at a time. An invocation of \<open>processQueue\<close> runs
  until it reaches an \<open>await\<close>, where it is suspended until the awaited promise
  settles; in between, other code runs, among it calls of \<open>queueRequest\<close>. The model
  is a state machine whose inputs are what can happen next: time passes, a caller
  queues a request, the request awaited by a suspended invocation settles (fulfilled
  or rejected), or the delay awaited by a suspended invocation is over. A request is
  known by a number. \<open>loops\<close> lists the invocations of \<open>processQueue\<close> that are
  suspended inside the \<open>while\<close> loop; \<open>started\<close> and \<open>settled\<close> log, with the time,
  each call of a \<open>requestFn\<close> and each \<open>resolve\<close>/\<open>reject\<close> of a queued request.
\<close>

datatype suspended = Running | AwaitingRequest nat | AwaitingDelay int

record writeQueue =
  requestQueue :: "nat list"
  processing :: bool
  loops :: "suspended list"
  qclock :: int
  started :: "(nat \<times> int) list"
  settled :: "(nat \<times> bool \<times> int) list"

definition newWriteQueue :: writeQueue where
  "newWriteQueue = \<lparr>requestQueue = [], processing = False, loops = [], qclock = 0,
                     started = [], settled = []\<rparr>"

text \<open>The head of the \<open>while\<close> loop, reached by invocation \<open>i\<close>: with the queue
  empty, \<open>this.processing = false\<close> and the invocation ends; otherwise the first
  request is shifted off the queue and its \<open>requestFn\<close> is called, and the
  invocation is suspended at \<open>await requestFn()\<close>.\<close>

definition loopHead :: "nat \<Rightarrow> writeQueue \<Rightarrow> writeQueue" where
  "loopHead i s =
     (case requestQueue s of
        [] \<Rightarrow> s\<lparr>processing := False, loops := take i (loops s) @ drop (Suc i) (loops s)\<rparr>
      | r # rest \<Rightarrow>
          s\<lparr>requestQueue := rest, started := started s @ [(r, qclock s)],
            loops := (loops s)[i := AwaitingRequest r]\<rparr>)"

text \<open>\<open>processQueue()\<close> up to its first \<open>await\<close>.\<close>

definition processQueue :: "writeQueue \<Rightarrow> writeQueue" where
  "processQueue s =
     (if processing s \<or> requestQueue s = [] then s
      else loopHead (length (loops s)) (s\<lparr>processing := True, loops := loops s @ [Running]\<rparr>))"

text \<open>\<open>queueRequest(requestFn)\<close>: the executor of the new promise pushes the request
  and calls \<open>processQueue\<close>.\<close>

definition queueRequest :: "nat \<Rightarrow> writeQueue \<Rightarrow> writeQueue" where
  "queueRequest r s = processQueue (s\<lparr>requestQueue := requestQueue s @ [r]\<rparr>)"

text \<open>
  The inputs. When the awaited request settles, the invocation resumes, settles the
  queued request's promise and is suspended at \<open>await this.delay(100)\<close>, a timer due
  100 ms later. When that delay is over (not before it is due), the invocation
  resumes at the head of the loop. \<open>None\<close> is an input that cannot happen in the
  state.
\<close>

datatype qinput = Elapse nat | QueueRequest nat | RequestSettles nat bool | DelayEnds nat

fun qstep :: "qinput \<Rightarrow> writeQueue \<Rightarrow> writeQueue option" where
  "qstep (Elapse ms) s = Some (s\<lparr>qclock := qclock s + int ms\<rparr>)"
| "qstep (QueueRequest r) s = Some (queueRequest r s)"
| "qstep (RequestSettles i ok) s =
     (if i < length (loops s) then
        (case loops s ! i of
           AwaitingRequest r \<Rightarrow>
             Some (s\<lparr>settled := settled s @ [(r, ok, qclock s)],
                     loops := (loops s)[i := AwaitingDelay (qclock s + 100)]\<rparr>)
         | _ \<Rightarrow> None)
      else None)"
| "qstep (DelayEnds i) s =
     (if i < length (loops s) then
        (case loops s ! i of
           AwaitingDelay t \<Rightarrow> if t \<le> qclock s then Some (loopHead i s) else None
         | _ \<Rightarrow> None)
      else None)"

fun qrun :: "qinput list \<Rightarrow> writeQueue \<Rightarrow> writeQueue option" where
  "qrun [] s = Some s"
| "qrun (e # es) s = (case qstep e s of None \<Rightarrow> None | Some s' \<Rightarrow> qrun es s')"

text \<open>The requests queued by a run of inputs, in the order of their submission.\<close>

fun submitted :: "qinput list \<Rightarrow> nat list" where
  "submitted [] = []"
| "submitted (QueueRequest r # es) = r # submitted es"
| "submitted (e # es) = submitted es"

definition settledAt :: "(nat \<times> bool \<times> int) \<Rightarrow> int" where
  "settledAt x = snd (snd x)"

text \<open>The invariant of the queue: the requests started and those still queued are the
  submissions in order; the settled ones are a prefix of the started ones; a request
  starts at least 100 ms after the one before it settled; and the machine is idle, or
  has one invocation awaiting the last request started, or has one invocation
  sleeping since the last settlement.\<close>

definition qorder :: "nat list \<Rightarrow> writeQueue \<Rightarrow> bool" where
  "qorder sub s =
     (map fst (started s) @ requestQueue s = sub \<and>
      map fst (settled s) = take (length (settled s)) (map fst (started s)) \<and>
      (\<forall>i. Suc i < length (started s) \<longrightarrow>
           i < length (settled s) \<and> settledAt (settled s ! i) + 100 \<le> snd (started s ! Suc i)))"

definition qidle :: "writeQueue \<Rightarrow> bool" where
  "qidle s = (loops s = [] \<and> \<not> processing s \<and> requestQueue s = [] \<and>
              length (settled s) = length (started s) \<and>
              (settled s \<noteq> [] \<longrightarrow> settledAt (last (settled s)) + 100 \<le> qclock s))"

definition qflying :: "writeQueue \<Rightarrow> bool" where
  "qflying s = (loops s = [AwaitingRequest (fst (last (started s)))] \<and> processing s \<and>
                length (started s) = Suc (length (settled s)))"

definition qsleeping :: "writeQueue \<Rightarrow> bool" where
  "qsleeping s = (loops s = [AwaitingDelay (settledAt (last (settled s)) + 100)] \<and> processing s \<and>
                  length (settled s) = length (started s) \<and> settled s \<noteq> [] \<and>
                  settledAt (last (settled s)) \<le> qclock s)"

definition qinv :: "nat list \<Rightarrow> writeQueue \<Rightarrow> bool" where
  "qinv sub s = (qorder sub s \<and> (qidle s \<or> qflying s \<or> qsleeping s))"

text \<open>Three writes submitted at once: the first takes 500 ms, the second fails after
  5 ms, the third takes 50 ms.\<close>

definition threeWrites :: "qinput list" where
  "threeWrites =
     [QueueRequest 1, QueueRequest 2, QueueRequest 3,
      Elapse 500, RequestSettles 0 True, Elapse 100, DelayEnds 0,
      Elapse 5, RequestSettles 0 False, Elapse 120, DelayEnds 0,
      Elapse 50, RequestSettles 0 True]"

section \<open>Facts about the fast tier\<close>

lemma map_of_setMemory_same:
  "map_of (memoryCache (setMemory now key v ttl c)) key =
     Some \<lparr>item_value = v, item_timestamp = now,
           item_ttl = (case ttl of None \<Rightarrow> 300000 | Some t \<Rightarrow> t)\<rparr>"
  by (simp add: setMemory_def Let_def update_conv')

lemma update_fresh_append:
  "k \<notin> fst ` set m \<Longrightarrow> AList.update k v m = m @ [(k, v)]"
  by (induction m) auto

lemma deleteFirstKey_distinct:
  "distinct (map fst m) \<Longrightarrow> deleteFirstKey m = tl m"
  by (cases m) (auto simp: deleteFirstKey_def AList.delete_eq filter_id_conv rev_image_eqI)

lemma getMemory_unexpired:
  assumes "\<forall>e \<in> set (memoryCache c). unexpiredAt now e"
  shows "snd (getMemory now key c) = c"
proof (cases "map_of (memoryCache c) key")
  case None
  then show ?thesis by (simp add: getMemory_def)
next
  case (Some item)
  then have "(key, item) \<in> set (memoryCache c)" by (rule map_of_SomeD)
  with assms have "unexpiredAt now (key, item)" by blast
  then show ?thesis using Some by (simp add: getMemory_def unexpiredAt_def)
qed

lemma setMemory_fifo_step:
  assumes "distinct (map fst (memoryCache c))" and "key \<notin> fst ` set (memoryCache c)"
    and "0 < maxMemorySize c"
  shows "memoryCache (setMemory now key v ttl c) =
           (if length (memoryCache c) \<ge> maxMemorySize c then tl (memoryCache c) else memoryCache c)
           @ [itemOf (SetOp now key v ttl)]"
proof -
  have "key \<notin> fst ` set (tl (memoryCache c))"
    using assms(2) by (cases "memoryCache c") auto
  then show ?thesis
    using assms by (simp add: setMemory_def deleteFirstKey_distinct update_fresh_append)
qed

lemma maxMemorySize_runOp [simp]: "maxMemorySize (runOp op c) = maxMemorySize c"
  by (cases op) (auto simp: setMemory_def getMemory_def Let_def split: option.splits)

lemma runOps_snoc: "runOps (ops @ [op]) c = runOp op (runOps ops c)"
  by (simp add: runOps_def)

lemma maxMemorySize_runOps [simp]: "maxMemorySize (runOps ops c) = maxMemorySize c"
  by (induction ops rule: rev_induct) (simp_all add: runOps_snoc, simp add: runOps_def)

lemma fifo_general:
  assumes "memoryCache c = []" and "0 < maxMemorySize c"
    and "distinct (map fst (inserted ops))"
    and "\<forall>r \<in> set ops. \<forall>e \<in> set (inserted ops). \<not> isSet r \<longrightarrow> unexpiredAt (readTime r) e"
  shows "memoryCache (runOps ops c) =
           drop (length (inserted ops) - maxMemorySize c) (inserted ops)"
  using assms(3,4)
proof (induction ops rule: rev_induct)
  case Nil
  then show ?case using assms(1) by (simp add: runOps_def inserted_def)
next
  case (snoc op ops)
  let ?c = "runOps ops c"
  let ?n = "length (inserted ops)"
  let ?C = "maxMemorySize c"
  have IH: "memoryCache ?c = drop (?n - ?C) (inserted ops)"
    using snoc by (auto simp: inserted_def)
  show ?case
  proof (cases op)
    case (GetOp now key)
    have "\<forall>e \<in> set (inserted ops). unexpiredAt now e"
      using snoc.prems(2) GetOp by (auto simp: inserted_def)
    moreover have "set (memoryCache ?c) \<subseteq> set (inserted ops)"
      by (simp add: IH set_drop_subset)
    ultimately have "\<forall>e \<in> set (memoryCache ?c). unexpiredAt now e"
      by blast
    then have "snd (getMemory now key ?c) = ?c" by (rule getMemory_unexpired)
    then show ?thesis using IH GetOp by (simp add: runOps_snoc inserted_def)
  next
    case (SetOp now key v ttl)
    have ins: "inserted (ops @ [op]) = inserted ops @ [itemOf op]"
      using SetOp by (simp add: inserted_def)
    have "distinct (map fst (inserted ops) @ [key])"
      using snoc.prems(1) SetOp unfolding ins by simp
    then have d: "distinct (map fst (inserted ops))" and f: "key \<notin> fst ` set (inserted ops)"
      by auto
    have d': "distinct (map fst (memoryCache ?c))"
      using d by (simp add: IH distinct_drop drop_map [symmetric])
    have f': "key \<notin> fst ` set (memoryCache ?c)"
      using f IH by (auto dest: in_set_dropD)
    have step: "memoryCache (runOps (ops @ [op]) c) =
           (if length (memoryCache ?c) \<ge> ?C then tl (memoryCache ?c) else memoryCache ?c)
           @ [itemOf op]"
      using setMemory_fifo_step [OF d' f'] assms(2) SetOp by (simp add: runOps_snoc)
    show ?thesis
    proof (cases "?n < ?C")
      case True
      then show ?thesis unfolding step ins IH by simp
    next
      case False
      then have "length (memoryCache ?c) = ?C" using IH by simp
      moreover have "tl (drop (?n - ?C) (inserted ops)) = drop (Suc ?n - ?C) (inserted ops)"
        using False by (simp add: drop_Suc tl_drop Suc_diff_le)
      ultimately show ?thesis using False assms(2) unfolding step ins IH
        by (simp add: Suc_diff_le)
    qed
  qed
qed


subsection \<open>Expiry on read\<close>

text \<open>
  C2 (as amended). An entry stored under \<open>k\<close> with time-to-live \<open>T\<close> is served by
  \<open>getMemory\<close> as long as \<open>now - createdAt \<le> T\<close>; once \<open>now - createdAt > T\<close> the
  read returns \<open>null\<close>, removes that entry and leaves every other key alone. The
  test is made anew at every read, against the time of that read. \<open>setMemory\<close>
  creates exactly such an entry, stamped with the time of the write.
\<close>

theorem getMemory_serves_until_ttl_exceeded:
  assumes "map_of (memoryCache c) k = Some item"
  shows "(now - item_timestamp item \<le> item_ttl item \<longrightarrow>
            getMemory now k c = (item_value item, c)) \<and>
         (now - item_timestamp item > item_ttl item \<longrightarrow>
            fst (getMemory now k c) = JNull \<and>
            map_of (memoryCache (snd (getMemory now k c))) k = None \<and>
            (\<forall>k'. k' \<noteq> k \<longrightarrow>
               map_of (memoryCache (snd (getMemory now k c))) k' = map_of (memoryCache c) k')) \<and>
         map_of (memoryCache (setMemory t0 k v (Some T) c)) k =
            Some \<lparr>item_value = v, item_timestamp = t0, item_ttl = T\<rparr>"
  using assms
  by (simp add: getMemory_def AList.delete_conv' map_of_setMemory_same)

theorem getMemory_serves_until_ttl_exceeded_witness:
  "getMemory 1099 ''k'' (setMemory 1000 ''k'' (JNum 7) (Some 100) newCacheManager)
     = (JNum 7, setMemory 1000 ''k'' (JNum 7) (Some 100) newCacheManager) \<and>
   getMemory 1101 ''k'' (setMemory 1000 ''k'' (JNum 7) (Some 100) newCacheManager)
     = (JNull, newCacheManager)"
proof -
  let ?c = "setMemory 1000 ''k'' (JNum 7) (Some 100) newCacheManager"
  let ?item = "\<lparr>item_value = JNum 7, item_timestamp = 1000, item_ttl = 100\<rparr>"
  have stored: "map_of (memoryCache ?c) ''k'' = Some ?item"
    by (simp add: setMemory_def newCacheManager_def)
  have "getMemory 1099 ''k'' ?c = (JNum 7, ?c)"
    using getMemory_serves_until_ttl_exceeded [OF stored, of 1099] by simp
  moreover have "getMemory 1101 ''k'' ?c = (JNull, newCacheManager)"
    using getMemory_serves_until_ttl_exceeded [OF stored, of 1101]
    by (simp add: getMemory_def setMemory_def newCacheManager_def)
  ultimately show ?thesis by simp
qed

text \<open>
  C2 as stated fails at the boundary: at \<open>now - createdAt = T\<close> the claim wants the
  entry gone, but the test of \<open>getMemory\<close> is \<open>Date.now() - item.timestamp > item.ttl\<close>,
  so the value is still returned and the entry stays.
\<close>

theorem getMemory_at_ttl_boundary_still_served:
  "(1100::int) - 1000 \<ge> 100 \<and>
   fst (getMemory 1100 ''k'' (setMemory 1000 ''k'' (JNum 7) (Some 100) newCacheManager)) = JNum 7 \<and>
   map_of (memoryCache (snd (getMemory 1100 ''k''
      (setMemory 1000 ''k'' (JNum 7) (Some 100) newCacheManager)))) ''k''
     = Some \<lparr>item_value = JNum 7, item_timestamp = 1000, item_ttl = 100\<rparr>"
  by (simp add: getMemory_def setMemory_def newCacheManager_def)

subsection \<open>Eviction order\<close>

text \<open>
  C6. Start from an empty fast tier of capacity \<open>C > 0\<close> and insert \<open>C + 1\<close> distinct
  keys, with any reads in between that find nothing expired. Afterwards the tier holds
  exactly the last \<open>C\<close> entries inserted, in insertion order and with the values they
  were given, and the first key inserted is gone: reading a key does not protect it.
\<close>

theorem fifo_eviction:
  assumes "memoryCache c = []" and "maxMemorySize c = C" and "0 < C"
    and "length (inserted ops) = Suc C"
    and "distinct (map fst (inserted ops))"
    and "\<forall>r \<in> set ops. \<forall>e \<in> set (inserted ops). \<not> isSet r \<longrightarrow> unexpiredAt (readTime r) e"
  shows "memoryCache (runOps ops c) = tl (inserted ops) \<and>
         map_of (memoryCache (runOps ops c)) (fst (hd (inserted ops))) = None"
proof -
  have "memoryCache (runOps ops c) = drop (length (inserted ops) - maxMemorySize c) (inserted ops)"
    using assms by (intro fifo_general) simp_all
  then have eq: "memoryCache (runOps ops c) = tl (inserted ops)"
    using assms(2,4) by (simp add: drop_Suc)
  obtain e es where es: "inserted ops = e # es"
    using assms(4) by (cases "inserted ops") auto
  have "fst e \<notin> fst ` set es" using assms(5) es by auto
  then have "map_of es (fst e) = None" by (simp add: map_of_eq_None_iff)
  then show ?thesis using eq es by simp
qed

text \<open>The scenario of the specification, with a read of \<open>a\<close> just before the third
  insertion: capacity 2, \<open>set(a,1)\<close>, \<open>set(b,2)\<close>, \<open>get(a)\<close>, \<open>set(c,3)\<close> leaves
  \<open>b\<close> and \<open>c\<close>.\<close>

theorem fifo_eviction_witness:
  "memoryCache (runOps
       [SetOp 0 ''a'' (JNum 1) None, SetOp 1 ''b'' (JNum 2) None, GetOp 2 ''a'',
        SetOp 3 ''c'' (JNum 3) None]
       (newCacheManager\<lparr>maxMemorySize := 2\<rparr>))
     = [(''b'', \<lparr>item_value = JNum 2, item_timestamp = 1, item_ttl = 300000\<rparr>),
        (''c'', \<lparr>item_value = JNum 3, item_timestamp = 3, item_ttl = 300000\<rparr>)] \<and>
   map_of (memoryCache (runOps
       [SetOp 0 ''a'' (JNum 1) None, SetOp 1 ''b'' (JNum 2) None, GetOp 2 ''a'',
        SetOp 3 ''c'' (JNum 3) None]
       (newCacheManager\<lparr>maxMemorySize := 2\<rparr>))) ''a'' = None"
  using fifo_eviction [of "newCacheManager\<lparr>maxMemorySize := 2\<rparr>" 2
      "[SetOp 0 ''a'' (JNum 1) None, SetOp 1 ''b'' (JNum 2) None, GetOp 2 ''a'',
        SetOp 3 ''c'' (JNum 3) None]"]
  by (simp add: newCacheManager_def inserted_def unexpiredAt_def)

section \<open>Facts about the retry loop\<close>

declare attempts.simps [simp del]

lemma afterFailures_same [simp]: "afterFailures svc a a w = w"
  by (simp add: afterFailures_def backoffs_def)

lemma afterFailures_Suc:
  "a \<le> k \<Longrightarrow>
   delay (retryDelay svc * int k) ((afterFailures svc a k w)\<lparr>invocations := Suc (invocations (afterFailures svc a k w))\<rparr>)
     = afterFailures svc a (Suc k) w"
  by (simp add: afterFailures_def backoffs_def delay_def Suc_diff_le)

lemma attempts_through_failures:
  assumes "a \<le> k" and "k \<le> R"
    and "\<forall>j. a \<le> j \<and> j < k \<longrightarrow> failure (q j) \<noteq> None"
  shows "attempts svc q key uc ttl udb R a le w =
         attempts svc q key uc ttl udb R k (if k = a then le else failure (q (k - 1)))
           (afterFailures svc a k w)"
  using assms
proof (induction k)
  case 0
  then show ?case by simp
next
  case (Suc k)
  show ?case
  proof (cases "a = Suc k")
    case True
    then show ?thesis by simp
  next
    case False
    then have ak: "a \<le> k" using Suc.prems by simp
    have kR: "k < R" using Suc.prems by simp
    obtain m where m: "failure (q k) = Some m" using Suc.prems ak by auto
    have "attempts svc q key uc ttl udb R a le w =
          attempts svc q key uc ttl udb R k (if k = a then le else failure (q (k - 1)))
            (afterFailures svc a k w)"
      using Suc.IH ak kR Suc.prems by simp
    also have "\<dots> = attempts svc q key uc ttl udb R (Suc k) (Some m) (afterFailures svc a (Suc k) w)"
      using kR m afterFailures_Suc [OF ak, of svc w]
      by (subst attempts.simps) (simp add: Let_def)
    finally show ?thesis using False m by simp
  qed
qed

lemma attempts_success_at:
  assumes "1 \<le> k" and "k \<le> R"
    and "\<forall>j. 1 \<le> j \<and> j < k \<longrightarrow> failure (q j) \<noteq> None"
    and "q k = Resolves r" and "error r = None"
  shows "attempts svc q key uc ttl udb R 1 None w =
           (Inr r, storeResult key uc ttl udb r
              ((afterFailures svc 1 k w)\<lparr>invocations := invocations w + k\<rparr>))"
proof -
  let ?w = "afterFailures svc 1 k w"
  have inv: "Suc (invocations ?w) = invocations w + k"
    using assms(1) by (simp add: afterFailures_def)
  have "attempts svc q key uc ttl udb R 1 None w =
        attempts svc q key uc ttl udb R k (if k = 1 then None else failure (q (k - 1))) ?w"
    using assms(1,2,3) by (intro attempts_through_failures) auto
  also have "\<dots> = (Inr r, storeResult key uc ttl udb r (?w\<lparr>invocations := invocations w + k\<rparr>))"
    using assms(2,4,5) inv
    by (subst attempts.simps) (simp add: Let_def storeResult_def)
  finally show ?thesis .
qed

lemma attempts_exhausted:
  assumes "1 \<le> R"
    and "\<forall>j. 1 \<le> j \<and> j \<le> R \<longrightarrow> failure (q j) \<noteq> None"
  shows "attempts svc q key uc ttl udb R 1 None w =
           (Inl (failure (q R)), (afterFailures svc 1 R w)\<lparr>invocations := invocations w + R\<rparr>)"
proof -
  let ?w = "afterFailures svc 1 R w"
  have inv: "Suc (invocations ?w) = invocations w + R"
    using assms(1) by (simp add: afterFailures_def)
  obtain m where m: "failure (q R) = Some m" using assms by auto
  have "attempts svc q key uc ttl udb R 1 None w =
        attempts svc q key uc ttl udb R R (if R = 1 then None else failure (q (R - 1))) ?w"
    using assms by (intro attempts_through_failures) auto
  also have "\<dots> = attempts svc q key uc ttl udb R (Suc R) (Some m) (?w\<lparr>invocations := invocations w + R\<rparr>)"
    using m inv by (subst attempts.simps) (simp add: Let_def)
  also have "\<dots> = (Inl (Some m), ?w\<lparr>invocations := invocations w + R\<rparr>)"
    by (subst attempts.simps) simp
  finally show ?thesis using m by simp
qed

lemma attempts_cache_unchanged:
  "attempts svc q key uc ttl udb R a le w = (res, w') \<Longrightarrow>
   (case res of Inl e \<Rightarrow> True | Inr r \<Rightarrow> \<not> (uc \<and> keyTruthy key \<and> truthy (data r))) \<Longrightarrow>
   cache w' = cache w \<and> handler w' = handler w"
proof (induction svc q key uc ttl udb R a le w rule: attempts.induct)
  case (1 svc queryFn cacheKey useCache' cacheTTL' useDB' retries' attempt lastError w)
  show ?case
  proof (cases "attempt \<le> retries'")
    case False
    then show ?thesis using "1.prems" by (subst (asm) attempts.simps) auto
  next
    case True
    show ?thesis
    proof (cases "failure (queryFn attempt)")
      case None
      then show ?thesis using "1.prems" True
        by (subst (asm) attempts.simps) (auto simp: Let_def split: if_splits)
    next
      case (Some m)
      let ?w1 = "w\<lparr>invocations := Suc (invocations w)\<rparr>"
      let ?w2 = "if attempt < retries' then delay (retryDelay svc * int attempt) ?w1 else ?w1"
      have "attempts svc queryFn cacheKey useCache' cacheTTL' useDB' retries' (Suc attempt) (Some m) ?w2 = (res, w')"
        using "1.prems"(1) True Some by (subst (asm) attempts.simps) (simp add: Let_def)
      then have "cache w' = cache ?w2 \<and> handler w' = handler ?w2"
        using "1.IH" [OF True refl Some] "1.prems"(2) by simp
      then show ?thesis by (simp add: delay_def)
    qed
  qed
qed

lemma attempts_invokes:
  "attempts svc q key uc ttl udb R a le w = (res, w') \<Longrightarrow> a \<le> R \<Longrightarrow>
   invocations w < invocations w'"
proof (induction svc q key uc ttl udb R a le w rule: attempts.induct)
  case (1 svc queryFn cacheKey useCache' cacheTTL' useDB' retries' attempt lastError w)
  have True: "attempt \<le> retries'" using "1.prems" by simp
  show ?case
  proof (cases "failure (queryFn attempt)")
    case None
    then show ?thesis using "1.prems" True
      by (subst (asm) attempts.simps) (auto simp: Let_def split: if_splits)
  next
    case (Some m)
    let ?w1 = "w\<lparr>invocations := Suc (invocations w)\<rparr>"
    let ?w2 = "if attempt < retries' then delay (retryDelay svc * int attempt) ?w1 else ?w1"
    have eq: "attempts svc queryFn cacheKey useCache' cacheTTL' useDB' retries' (Suc attempt) (Some m) ?w2 = (res, w')"
      using "1.prems"(1) True Some by (subst (asm) attempts.simps) (simp add: Let_def)
    show ?thesis
    proof (cases "Suc attempt \<le> retries'")
      case True2: True
      have "invocations ?w2 < invocations w'"
        using "1.IH" [OF True refl Some eq True2] .
      then show ?thesis by (simp add: delay_def split: if_splits)
    next
      case False
      then show ?thesis using eq by (subst (asm) attempts.simps) (auto simp: delay_def split: if_splits)
    qed
  qed
qed



lemma execute_cache_miss:
  assumes "destructure svc opts = (True, ttl, udb, R)" and "k \<noteq> []"
    and "cache_get (clock w) k udb (cache w) = (cached, c0)" and "\<not> truthy cached"
  shows "execute svc q (Some k) opts w =
           (case attempts svc q (Some k) True ttl udb R 1 None (w\<lparr>cache := c0\<rparr>) of
              (Inr result, w1) \<Rightarrow> (Inr (OperationResult result), w1)
            | (Inl lastError, w1) \<Rightarrow>
                (case handleError lastError ''supabase'' (Some k) R (handler w1) of
                   (Inl e, eh) \<Rightarrow> (Inl e, w1\<lparr>handler := eh\<rparr>)
                 | (Inr info, eh) \<Rightarrow> (Inr (Exhausted lastError info), w1\<lparr>handler := eh\<rparr>)))"
  using assms by (simp add: execute_def)


text \<open>Without the cache in play, \<open>execute\<close> is the retry loop: an operation that
  fails on attempts \<open>1, \<dots>, k - 1\<close> and succeeds on attempt \<open>k \<le> retries\<close> is
  invoked \<open>k\<close> times, its result is returned, and the delays slept are
  \<open>retryDelay \<times> 1, \<dots>, retryDelay \<times> (k - 1)\<close>.\<close>

lemma execute_succeeds_at_attempt:
  assumes "destructure svc opts = (uc, ttl, udb, R)"
    and "\<not> (uc \<and> keyTruthy key)"
    and "1 \<le> k" and "k \<le> R"
    and "\<forall>j. 1 \<le> j \<and> j < k \<longrightarrow> failure (q j) \<noteq> None"
    and "q k = Resolves r" and "error r = None"
  shows "execute svc q key opts w =
           (Inr (OperationResult r), (afterFailures svc 1 k w)\<lparr>invocations := invocations w + k\<rparr>)"
  using assms attempts_success_at [OF assms(3,4,5,6,7), of svc key uc ttl udb w]
  by (auto simp: execute_def storeResult_def)

text \<open>An operation that fails on all \<open>retries \<ge> 1\<close> attempts is invoked \<open>retries\<close>
  times with \<open>retries - 1\<close> delays. What \<open>execute\<close> then does depends on the
  message of the last error: with a message that is not empty it returns
  \<open>{ data: null, error, errorInfo }\<close>; with an empty message the \<open>TypeError\<close> of
  \<open>isCriticalError\<close> leaves \<open>execute\<close>.\<close>

lemma execute_exhausted:
  assumes "destructure svc opts = (uc, ttl, udb, R)"
    and "\<not> (uc \<and> keyTruthy key)"
    and "1 \<le> R"
    and "\<forall>j. 1 \<le> j \<and> j \<le> R \<longrightarrow> failure (q j) \<noteq> None"
    and "failure (q R) = Some m"
  shows "delays (snd (execute svc q key opts w)) = delays w @ backoffs svc 1 R"
    and "invocations (snd (execute svc q key opts w)) = invocations w + R"
    and "m \<noteq> [] \<Longrightarrow> \<exists>info. fst (execute svc q key opts w) = Inr (Exhausted (Some m) info)"
    and "m = [] \<Longrightarrow> \<exists>e. fst (execute svc q key opts w) = Inl e"
  using assms attempts_exhausted [OF assms(3,4), of svc key uc ttl udb w]
  by (auto simp: execute_def handleError_def isCriticalError_def Let_def afterFailures_def)

lemma length_backoffs: "length (backoffs svc 1 k) = k - 1"
  by (simp add: backoffs_def)

subsection \<open>Retry and backoff\<close>

text \<open>
  C4. The claim holds for the count and the length of the delays
  (\<open>execute_succeeds_at_attempt\<close>, \<open>execute_exhausted\<close>), but not for "never raising":
  an operation that throws \<open>new Error('')\<close> at each of the three attempts is retried
  with delays of 1000 and 2000 ms, and then \<open>execute\<close> throws the \<open>TypeError\<close>
  raised inside \<open>errorHandler.handleError\<close> instead of returning
  \<open>{ data: null, error }\<close>.
\<close>

theorem execute_throws_on_empty_message:
  "execute newSupabaseService (\<lambda>attempt. Throws []) None
       \<lparr>useCache = None, cacheTTL = None, useDB = None, retries = None\<rparr> newWorld
     = (Inl (TypeError ''toLowerCase is not a function''),
        newWorld\<lparr>clock := 3000, delays := [1000, 2000], invocations := 3\<rparr>)"
proof -
  have "attempts newSupabaseService (\<lambda>attempt. Throws []) None True 300000 False 3 1 None newWorld
        = (Inl (failure (Throws [])),
           (afterFailures newSupabaseService 1 3 newWorld)\<lparr>invocations := invocations newWorld + 3\<rparr>)"
    by (intro attempts_exhausted) auto
  moreover have "[1..<3] = [1, 2]" by (simp add: upt_rec)
  ultimately show ?thesis
    by (simp add: execute_def destructure_def newSupabaseService_def handleError_def
        isCriticalError_def afterFailures_def backoffs_def newWorld_def Let_def)
qed

subsection \<open>Read-through caching\<close>

text \<open>A valid entry of the tier that \<open>useDB\<close> selects is what the read returns.\<close>

lemma cache_get_valid_entry:
  assumes "(if udb then db c else Some (memoryCache c)) = Some store"
    and "map_of store key = Some item"
    and "now - item_timestamp item \<le> item_ttl item"
  shows "cache_get now key udb c = (item_value item, c)"
  using assms by (auto simp: cache_get_def getDB_def getMemory_def split: if_splits)






subsection \<open>Falsy values\<close>

text \<open>
  C10 (as amended). For every call of \<open>execute\<close>, whatever the options and the
  key: a cache hit is returned only with \<open>useCache\<close> on, a non-empty key and a
  truthy value read from the tier that \<open>useDB\<close> selects, so that a read yielding a
  falsy value (a valid entry holding \<open>null\<close>, \<open>0\<close>, \<open>''\<close>, \<open>false\<close>,
  \<open>undefined\<close> or \<open>NaN\<close> reads so) is no hit; when the result is no cache hit and
  \<open>retries\<close> is at least 1, the operation is invoked; and when \<open>execute\<close> returns
  an operation result whose \<open>data\<close> is falsy, the cache is as the initial read left
  it (as it was, when the cache is not read): nothing was stored.
\<close>

theorem falsy_values_bypass_cache:
  assumes "destructure svc opts = (uc, ttl, udb, R)"
    and "execute svc q key opts w = (res, w')"
  shows "(\<forall>v. res = Inr (CacheHit v) \<longrightarrow>
            truthy v \<and> uc \<and> keyTruthy key \<and> v = fst (cache_get (clock w) (the key) udb (cache w))) \<and>
         ((\<forall>v. res \<noteq> Inr (CacheHit v)) \<and> 1 \<le> R \<longrightarrow> invocations w < invocations w') \<and>
         (\<forall>r. res = Inr (OperationResult r) \<and> \<not> truthy (data r) \<longrightarrow>
            cache w' = (if uc \<and> keyTruthy key
                        then snd (cache_get (clock w) (the key) udb (cache w)) else cache w))"
proof -
  obtain cached c0 where rd:
    "(if uc \<and> keyTruthy key then cache_get (clock w) (the key) udb (cache w) else (JUndef, cache w))
       = (cached, c0)"
    by (cases "if uc \<and> keyTruthy key then cache_get (clock w) (the key) udb (cache w) else (JUndef, cache w)") auto
  let ?w0 = "w\<lparr>cache := c0\<rparr>"
  have w0: "(if uc \<and> keyTruthy key
               then (case cache_get (clock w) (the key) udb (cache w) of (v, c) \<Rightarrow> (v, w\<lparr>cache := c\<rparr>))
               else (JUndef, w)) = (cached, ?w0)"
    using rd by (auto split: if_splits prod.splits)
  show ?thesis
  proof (cases "uc \<and> keyTruthy key \<and> truthy cached")
    case True
    then have "execute svc q key opts w = (Inr (CacheHit cached), ?w0)"
      using assms(1) w0 by (simp add: execute_def)
    then show ?thesis using assms(2) True rd by (auto split: if_splits)
  next
    case False
    obtain lr w1 where lp: "attempts svc q key uc ttl udb R 1 None ?w0 = (lr, w1)"
      by (cases "attempts svc q key uc ttl udb R 1 None ?w0") auto
    have ex: "execute svc q key opts w =
           (case lr of Inr result \<Rightarrow> (Inr (OperationResult result), w1)
            | Inl lastError \<Rightarrow>
                (case handleError lastError ''supabase'' key R (handler w1) of
                   (Inl e, eh) \<Rightarrow> (Inl e, w1\<lparr>handler := eh\<rparr>)
                 | (Inr info, eh) \<Rightarrow> (Inr (Exhausted lastError info), w1\<lparr>handler := eh\<rparr>)))"
      using assms(1) w0 False lp unfolding execute_def by (auto split: sum.splits)
    have inv: "invocations w' = invocations w1"
      using ex assms(2) by (auto split: sum.splits prod.splits)
    have nohit: "res \<noteq> Inr (CacheHit v)" for v
      using ex assms(2) by (auto split: sum.splits prod.splits)
    have "1 \<le> R \<longrightarrow> invocations w < invocations w'"
      using attempts_invokes [OF lp] inv by simp
    moreover have "cache w' = c0" if "res = Inr (OperationResult r)" and "\<not> truthy (data r)" for r
    proof -
      have "lr = Inr r \<and> w' = w1"
        using ex assms(2) that(1) by (auto split: sum.splits prod.splits)
      then show ?thesis using attempts_cache_unchanged [OF lp] that(2) by simp
    qed
    moreover have "c0 = (if uc \<and> keyTruthy key
                        then snd (cache_get (clock w) (the key) udb (cache w)) else cache w)"
      using rd by (auto split: if_splits)
    ultimately show ?thesis using nohit by blast
  qed
qed

theorem falsy_values_bypass_cache_witness:
  "getMemory 0 ''k'' (setMemory 0 ''k'' (JNum 0) None newCacheManager)
     = (JNum 0, setMemory 0 ''k'' (JNum 0) None newCacheManager) \<and>
   execute newSupabaseService (\<lambda>attempt. Resolves \<lparr>data = JStr [], error = None, extra = []\<rparr>)
       (Some ''k'') \<lparr>useCache = None, cacheTTL = None, useDB = None, retries = None\<rparr>
       (newWorld\<lparr>cache := setMemory 0 ''k'' (JNum 0) None newCacheManager\<rparr>)
     = (Inr (OperationResult \<lparr>data = JStr [], error = None, extra = []\<rparr>),
        newWorld\<lparr>cache := setMemory 0 ''k'' (JNum 0) None newCacheManager, invocations := 1\<rparr>)"
proof -
  let ?c = "setMemory 0 ''k'' (JNum 0) None newCacheManager"
  let ?w = "newWorld\<lparr>cache := ?c\<rparr>"
  let ?q = "\<lambda>attempt::nat. Resolves \<lparr>data = JStr [], error = None, extra = []\<rparr>"
  let ?opts = "\<lparr>useCache = None, cacheTTL = None, useDB = None, retries = None\<rparr>"
  have d: "destructure newSupabaseService ?opts = (True, 300000, False, 3)"
    by (simp add: destructure_def newSupabaseService_def)
  have g1: "getMemory 0 ''k'' ?c = (JNum 0, ?c)"
    by (simp add: getMemory_def setMemory_def newCacheManager_def)
  then have g: "cache_get (clock ?w) ''k'' False (cache ?w) = (JNum 0, ?c)"
    by (simp add: cache_get_def newWorld_def)
  have k: "''k'' \<noteq> []" by simp
  obtain res w' where ex: "execute newSupabaseService ?q (Some ''k'') ?opts ?w = (res, w')"
    by (cases "execute newSupabaseService ?q (Some ''k'') ?opts ?w") auto
  have lp: "attempts newSupabaseService ?q (Some ''k'') True 300000 False 3 1 None ?w
              = (Inr \<lparr>data = JStr [], error = None, extra = []\<rparr>, ?w\<lparr>invocations := 1\<rparr>)"
    by (subst attempts.simps) (simp add: Let_def newWorld_def)
  have res: "res = Inr (OperationResult \<lparr>data = JStr [], error = None, extra = []\<rparr>)"
    and w': "w' = ?w\<lparr>invocations := 1\<rparr>"
    using execute_cache_miss [OF d k g, of ?q] lp ex by simp_all
  from falsy_values_bypass_cache [OF d ex]
  have "invocations ?w < invocations w'" and "cache w' = ?c"
    using res g by simp_all
  then show ?thesis using g1 ex res w' by simp
qed

text \<open>
  C10 as stated fails when no attempt is allowed. With \<open>{ retries: 0 }\<close> and a
  valid entry holding \<open>0\<close>, the entry is no hit, the loop
  \<open>for (attempt = 1; attempt <= retries; attempt++)\<close> does not run, and \<open>execute\<close>
  returns \<open>{ data: null, error: null, errorInfo }\<close>: the operation is never invoked.
\<close>

theorem falsy_entry_with_no_retries_invokes_nothing:
  "getMemory 0 ''k'' (setMemory 0 ''k'' (JNum 0) None newCacheManager)
     = (JNum 0, setMemory 0 ''k'' (JNum 0) None newCacheManager) \<and>
   execute newSupabaseService (\<lambda>attempt. Resolves \<lparr>data = JNum 1, error = None, extra = []\<rparr>)
       (Some ''k'') \<lparr>useCache = None, cacheTTL = None, useDB = None, retries = Some 0\<rparr>
       (newWorld\<lparr>cache := setMemory 0 ''k'' (JNum 0) None newCacheManager\<rparr>)
     = (Inr (Exhausted None \<lparr>info_message = None, info_type = ''supabase'',
                              info_cacheKey = Some ''k'', info_retries = 0\<rparr>),
        newWorld\<lparr>cache := setMemory 0 ''k'' (JNum 0) None newCacheManager\<rparr>) \<and>
   invocations (newWorld\<lparr>cache := setMemory 0 ''k'' (JNum 0) None newCacheManager\<rparr>) = 0"
proof -
  have g: "getMemory 0 ''k'' (setMemory 0 ''k'' (JNum 0) None newCacheManager)
     = (JNum 0, setMemory 0 ''k'' (JNum 0) None newCacheManager)"
    by (simp add: getMemory_def setMemory_def newCacheManager_def)
  have lp: "attempts newSupabaseService q key uc ttl udb 0 1 None w = (Inl None, w)" for q key uc ttl udb w
    by (subst attempts.simps) simp
  show ?thesis
    using lp [of "\<lambda>attempt. Resolves \<lparr>data = JNum 1, error = None, extra = []\<rparr>" "Some ''k''" True 300000 False]
    by (simp add: g execute_def destructure_def cache_get_def handleError_def isCriticalError_def
        newWorld_def Let_def)
qed

subsection \<open>Invalidation\<close>

lemma map_of_fold_delete:
  "map_of (fold AList.delete ks m) k = (if k \<in> set ks then None else map_of m k)"
  by (induction ks arbitrary: m) (auto simp: AList.delete_conv')

lemma getMemory_unexpired_other:
  assumes "map_of (memoryCache c) key = Some item" and "now - item_timestamp item \<le> item_ttl item"
  shows "map_of (memoryCache (snd (getMemory now key' c))) key = Some item"
  using assms by (cases "key' = key") (auto simp: getMemory_def AList.delete_conv' split: option.splits)

lemma invalidateCache_keeps_unexpired_exact_key:
  assumes "map_of (memoryCache c) key = Some item"
    and "now - item_timestamp item \<le> item_ttl item"
    and "\<not> startsWith key ''product_''"
  shows "map_of (memoryCache (invalidateCache now pattern c)) key = Some item"
proof -
  have "map_of (memoryCache (snd (cache_get now key' False c))) key = Some item" for key'
    using getMemory_unexpired_other [OF assms(1,2)] by (simp add: cache_get_def)
  then show ?thesis using assms(1,3)
    by (simp add: invalidateCache_def Let_def map_of_fold_delete)
qed

lemma staleCache_eq:
  "staleCache = \<lparr>memoryCache =
       [(''products_all'', \<lparr>item_value = JRef 0, item_timestamp = 0, item_ttl = 300000\<rparr>),
        (''product_7'', \<lparr>item_value = JRef 1, item_timestamp = 0, item_ttl = 300000\<rparr>),
        (''categories_all'', \<lparr>item_value = JRef 2, item_timestamp = 0, item_ttl = 300000\<rparr>),
        (''store_settings'', \<lparr>item_value = JRef 3, item_timestamp = 0, item_ttl = 300000\<rparr>)],
      maxMemorySize = 50, db = None\<rparr>"
  by (simp add: staleCache_def setMemory_def newCacheManager_def)

text \<open>
  C3. The claim fails on the code for the exact keys. In a fast tier holding fresh
  entries for \<open>products_all\<close>, \<open>product_7\<close>, \<open>categories_all\<close> and
  \<open>store_settings\<close>, \<open>invalidateCache('products')\<close> removes \<open>product_7\<close> but a read
  of \<open>products_all\<close> is still a hit, and after \<open>invalidateCache('categories')\<close> and
  \<open>invalidateCache('settings')\<close> their keys are still hits: each branch calls
  \<open>cacheManager.get\<close> on the exact key where a delete is meant.
\<close>

theorem invalidateCache_leaves_exact_keys:
  "fst (cache_get 1000 ''product_7'' False (invalidateCache 1000 ''products'' staleCache)) = JNull \<and>
   fst (cache_get 1000 ''products_all'' False (invalidateCache 1000 ''products'' staleCache)) = JRef 0 \<and>
   fst (cache_get 1000 ''categories_all'' False (invalidateCache 1000 ''categories'' staleCache)) = JRef 2 \<and>
   fst (cache_get 1000 ''store_settings'' False (invalidateCache 1000 ''settings'' staleCache)) = JRef 3"
  unfolding staleCache_eq
  by (simp add: invalidateCache_def cache_get_def getMemory_def startsWith_def Let_def)


section \<open>Facts about deepClone\<close>

text \<open>A value that is a finite tree within the depth allowed is cloned: the heap is
  only extended, and the clone has the same tree as the original.\<close>

lemma lookup_append:
  "lookup h a = Some ob \<Longrightarrow> lookup (h @ ext) a = Some ob"
  by (auto simp: lookup_def nth_append split: if_splits)

lemma lookup_fresh [simp]: "lookup (h @ [ob]) (length h) = Some ob"
  by (simp add: lookup_def)

lemma itemValues_mono:
  "itemValues g xs = Some ts \<Longrightarrow> (\<And>x t. x \<in> set xs \<Longrightarrow> g x = Some t \<Longrightarrow> g' x = Some t) \<Longrightarrow>
   itemValues g' xs = Some ts"
  by (induction xs arbitrary: ts) (auto split: option.splits)

lemma propValues_mono:
  "propValues g ps = Some ts \<Longrightarrow> (\<And>x t. x \<in> snd ` set ps \<Longrightarrow> g x = Some t \<Longrightarrow> g' x = Some t) \<Longrightarrow>
   propValues g' ps = Some ts"
proof (induction ps arbitrary: ts)
  case Nil
  then show ?case by simp
next
  case (Cons p ps)
  obtain k x where p: "p = (k, x)" by (cases p) auto
  from Cons.prems(1) obtain t ts' where t: "g x = Some t" and ts': "propValues g ps = Some ts'"
    and ts: "ts = (k, t) # ts'"
    by (auto simp: p split: option.splits)
  have "g' x = Some t" using Cons.prems(2) [of x t] t by (simp add: p)
  moreover have "propValues g' ps = Some ts'"
    using Cons.IH [OF ts'] Cons.prems(2) by auto
  ultimately show ?case by (simp add: p ts)
qed

lemma propValues_append:
  "propValues g (ps @ qs) =
     (case propValues g ps of None \<Rightarrow> None
      | Some a \<Rightarrow> (case propValues g qs of None \<Rightarrow> None | Some b \<Rightarrow> Some (a @ b)))"
  by (induction ps) (auto split: option.splits)

lemma propValues_keys:
  "propValues g ps = Some ts \<Longrightarrow> map fst ts = map fst ps"
  by (induction ps arbitrary: ts) (auto split: option.splits)

lemma deepValue_mono_heap:
  "deepValue d h v = Some t \<Longrightarrow> deepValue d (h @ ext) v = Some t"
proof (induction d arbitrary: v t)
  case 0
  then show ?case by simp
next
  case (Suc d)
  show ?case
  proof (cases v)
    case (JRef a)
    with Suc.prems obtain ob where ob: "lookup h a = Some ob"
      by (auto split: option.splits)
    then have ob': "lookup (h @ ext) a = Some ob" by (rule lookup_append)
    show ?thesis
    proof (cases ob)
      case (JArr items)
      with Suc.prems JRef ob obtain ts where ts: "itemValues (deepValue d h) items = Some ts" "t = TArr ts"
        by auto
      have "itemValues (deepValue d (h @ ext)) items = Some ts"
        using ts(1) Suc.IH by (rule itemValues_mono)
      then show ?thesis using JRef ob' JArr ts(2) by simp
    next
      case (JObj ps)
      with Suc.prems JRef ob obtain ts where ts: "propValues (deepValue d h) ps = Some ts" "t = TObj ts"
        and d: "distinct (map fst ps)"
        by (auto split: if_splits)
      have "propValues (deepValue d (h @ ext)) ps = Some ts"
        using ts(1) Suc.IH by (rule propValues_mono)
      then show ?thesis using JRef ob' JObj ts(2) d by simp
    next
      case (JDate x3)
      then show ?thesis using Suc.prems JRef ob ob' by simp
    qed
  qed (use Suc.prems in auto)
qed

lemma cloneItems_spec:
  assumes f: "\<And>h x t. dv h x = Some t \<Longrightarrow> \<exists>y ext. f h x = Some (y, h @ ext) \<and> dv (h @ ext) y = Some t"
    and mono: "\<And>h x t ext. dv h x = Some t \<Longrightarrow> dv (h @ ext) x = Some t"
  shows "itemValues (dv h) xs = Some ts \<Longrightarrow>
         \<exists>ys ext. cloneItems f h xs = Some (ys, h @ ext) \<and> itemValues (dv (h @ ext)) ys = Some ts"
proof (induction xs arbitrary: h ts)
  case Nil
  then show ?case by (auto intro: exI [of _ "[]"])
next
  case (Cons x xs)
  from Cons.prems obtain t ts' where t: "dv h x = Some t" and ts': "itemValues (dv h) xs = Some ts'"
    and ts: "ts = t # ts'"
    by (auto split: option.splits)
  from f [OF t] obtain y e1 where y: "f h x = Some (y, h @ e1)" "dv (h @ e1) y = Some t" by blast
  have "itemValues (dv (h @ e1)) xs = Some ts'"
    using ts' mono by (rule itemValues_mono)
  from Cons.IH [OF this] obtain ys e2 where
    ys: "cloneItems f (h @ e1) xs = Some (ys, (h @ e1) @ e2)" "itemValues (dv ((h @ e1) @ e2)) ys = Some ts'"
    by blast
  have "dv ((h @ e1) @ e2) y = Some t" using y(2) by (rule mono)
  then have "cloneItems f h (x # xs) = Some (y # ys, h @ (e1 @ e2)) \<and>
             itemValues (dv (h @ (e1 @ e2))) (y # ys) = Some ts"
    using y(1) ys ts by simp
  then show ?case by blast
qed

lemma update_fresh_append':
  "k \<notin> set (map fst m) \<Longrightarrow> AList.update k v m = m @ [(k, v)]"
  by (induction m) auto

lemma cloneProps_spec:
  assumes f: "\<And>h x t. dv h x = Some t \<Longrightarrow> \<exists>y ext. f h x = Some (y, h @ ext) \<and> dv (h @ ext) y = Some t"
    and mono: "\<And>h x t ext. dv h x = Some t \<Longrightarrow> dv (h @ ext) x = Some t"
  shows "distinct (map fst copy @ map fst todo) \<Longrightarrow>
         propValues (dv h) copy = Some tcopy \<Longrightarrow> propValues (dv h) todo = Some ttodo \<Longrightarrow>
         (\<And>k x. (k, x) \<in> set todo \<Longrightarrow> readProp obj k = x) \<Longrightarrow>
         \<exists>copy' ext. cloneProps f obj h (map fst todo) copy = Some (copy', h @ ext) \<and>
            propValues (dv (h @ ext)) copy' = Some (tcopy @ ttodo)"
proof (induction todo arbitrary: h copy tcopy ttodo)
  case Nil
  then show ?case by (auto intro: exI [of _ "[]"])
next
  case (Cons p todo)
  obtain k x where p: "p = (k, x)" by (cases p) auto
  from Cons.prems(3) obtain t ts' where t: "dv h x = Some t" and ts': "propValues (dv h) todo = Some ts'"
    and ttodo: "ttodo = (k, t) # ts'"
    by (auto simp: p split: option.splits)
  have rd: "readProp obj k = x" using Cons.prems(4) [of k x] by (simp add: p)
  from f [OF t] obtain y e1 where y: "f h x = Some (y, h @ e1)" "dv (h @ e1) y = Some t" by blast
  have fresh: "k \<notin> set (map fst copy)" using Cons.prems(1) by (auto simp: p)
  let ?copy = "copy @ [(k, y)]"
  have upd: "AList.update k y copy = ?copy" using fresh by (rule update_fresh_append')
  have d: "distinct (map fst ?copy @ map fst todo)" using Cons.prems(1) by (auto simp: p)
  have c1: "propValues (dv (h @ e1)) copy = Some tcopy"
    using Cons.prems(2) mono by (rule propValues_mono)
  have c2: "propValues (dv (h @ e1)) ?copy = Some (tcopy @ [(k, t)])"
    using c1 y(2) by (simp add: propValues_append)
  have c3: "propValues (dv (h @ e1)) todo = Some ts'"
    using ts' mono by (rule propValues_mono)
  from Cons.IH [OF d c2 c3] Cons.prems(4) obtain copy' e2 where
    r: "cloneProps f obj (h @ e1) (map fst todo) ?copy = Some (copy', (h @ e1) @ e2)"
       "propValues (dv ((h @ e1) @ e2)) copy' = Some ((tcopy @ [(k, t)]) @ ts')"
    by (auto simp: p)
  have "cloneProps f obj h (map fst (p # todo)) copy = Some (copy', h @ (e1 @ e2)) \<and>
        propValues (dv (h @ (e1 @ e2))) copy' = Some (tcopy @ ttodo)"
    using y(1) r rd upd by (simp add: p ttodo)
  then show ?case by blast
qed

lemma readProp_distinct:
  "distinct (map fst ps) \<Longrightarrow> (k, x) \<in> set ps \<Longrightarrow> readProp ps k = x"
  by (simp add: readProp_def)

lemma deepClone_spec:
  "deepValue d h v = Some t \<Longrightarrow>
   \<exists>v' ext. deepClone d h v = Some (v', h @ ext) \<and> deepValue d (h @ ext) v' = Some t"
proof (induction d arbitrary: h v t)
  case 0
  then show ?case by simp
next
  case (Suc d)
  note IH = Suc.IH
  note mono = deepValue_mono_heap [of d]
  show ?case
  proof (cases v)
    case (JRef a)
    with Suc.prems obtain ob where ob: "lookup h a = Some ob"
      by (auto split: option.splits)
    show ?thesis
    proof (cases ob)
      case (JDate t0)
      then have "deepClone (Suc d) h v = Some (JRef (length h), h @ [JDate t0]) \<and>
                 deepValue (Suc d) (h @ [JDate t0]) (JRef (length h)) = Some t"
        using Suc.prems JRef ob by (simp add: alloc_def)
      then show ?thesis by blast
    next
      case (JArr items)
      with Suc.prems JRef ob obtain ts where ts: "itemValues (deepValue d h) items = Some ts" "t = TArr ts"
        by auto
      from cloneItems_spec [of "deepValue d" "deepClone d", OF IH mono ts(1)]
      obtain ys ext where ys: "cloneItems (deepClone d) h items = Some (ys, h @ ext)"
          "itemValues (deepValue d (h @ ext)) ys = Some ts"
        by blast
      have "itemValues (deepValue d ((h @ ext) @ [JArr ys])) ys = Some ts"
        using ys(2) mono by (rule itemValues_mono)
      then have "deepClone (Suc d) h v = Some (JRef (length (h @ ext)), h @ (ext @ [JArr ys])) \<and>
                 deepValue (Suc d) (h @ (ext @ [JArr ys])) (JRef (length (h @ ext))) = Some t"
        using JRef ob JArr ys(1) ts(2) lookup_fresh [of "h @ ext" "JArr ys"]
        by (simp add: alloc_def del: lookup_fresh)
      then show ?thesis by blast
    next
      case (JObj ps)
      with Suc.prems JRef ob obtain ts where ts: "propValues (deepValue d h) ps = Some ts" "t = TObj ts"
        and dist: "distinct (map fst ps)"
        by (auto split: if_splits)
      have "\<exists>copy' ext. cloneProps (deepClone d) ps h (map fst ps) [] = Some (copy', h @ ext) \<and>
            propValues (deepValue d (h @ ext)) copy' = Some ([] @ ts)"
        using dist ts(1) readProp_distinct [OF dist]
        by (intro cloneProps_spec [of "deepValue d" "deepClone d", OF IH mono]) auto
      then obtain copy ext where cp: "cloneProps (deepClone d) ps h (map fst ps) [] = Some (copy, h @ ext)"
          "propValues (deepValue d (h @ ext)) copy = Some ts"
        by auto
      have keys: "map fst copy = map fst ps"
        using propValues_keys [OF cp(2)] propValues_keys [OF ts(1)] by simp
      have "propValues (deepValue d ((h @ ext) @ [JObj copy])) copy = Some ts"
        using cp(2) mono by (rule propValues_mono)
      then have "deepClone (Suc d) h v = Some (JRef (length (h @ ext)), h @ (ext @ [JObj copy])) \<and>
                 deepValue (Suc d) (h @ (ext @ [JObj copy])) (JRef (length (h @ ext))) = Some t"
        using JRef ob JObj cp(1) ts(2) keys dist lookup_fresh [of "h @ ext" "JObj copy"]
        by (simp add: alloc_def del: lookup_fresh)
      then show ?thesis by blast
    qed
  next
    case JUndef
    then have "deepClone (Suc d) h v = Some (v, h @ []) \<and> deepValue (Suc d) (h @ []) v = Some t"
      using Suc.prems by simp
    then show ?thesis by blast
  next
    case JNull
    then have "deepClone (Suc d) h v = Some (v, h @ []) \<and> deepValue (Suc d) (h @ []) v = Some t"
      using Suc.prems by simp
    then show ?thesis by blast
  next
    case (JBool x3)
    then have "deepClone (Suc d) h v = Some (v, h @ []) \<and> deepValue (Suc d) (h @ []) v = Some t"
      using Suc.prems by simp
    then show ?thesis by blast
  next
    case (JNum x4)
    then have "deepClone (Suc d) h v = Some (v, h @ []) \<and> deepValue (Suc d) (h @ []) v = Some t"
      using Suc.prems by simp
    then show ?thesis by blast
  next
    case JNaN
    then have "deepClone (Suc d) h v = Some (v, h @ []) \<and> deepValue (Suc d) (h @ []) v = Some t"
      using Suc.prems by simp
    then show ?thesis by blast
  next
    case (JStr x6)
    then have "deepClone (Suc d) h v = Some (v, h @ []) \<and> deepValue (Suc d) (h @ []) v = Some t"
      using Suc.prems by simp
    then show ?thesis by blast
  qed
qed


lemma freshIn_append:
  "freshIn n h \<Longrightarrow> n \<le> length h \<Longrightarrow> \<forall>ob \<in> set ext. \<forall>a \<in> set (refsOf ob). n \<le> a \<and> a < length h + length ext \<Longrightarrow>
   freshIn n (h @ ext)"
  by (fastforce simp: freshIn_def)

lemma freshVal_mono: "freshVal n h v \<Longrightarrow> freshVal n (h @ ext) v"
  by (auto simp: freshVal_def)

lemma cloneItems_fresh:
  assumes f: "\<And>h x y h'. n \<le> length h \<Longrightarrow> freshIn n h \<Longrightarrow> f h x = Some (y, h') \<Longrightarrow>
                (\<exists>ext. h' = h @ ext) \<and> freshIn n h' \<and> freshVal n h' y"
  shows "n \<le> length h \<Longrightarrow> freshIn n h \<Longrightarrow> cloneItems f h xs = Some (ys, h') \<Longrightarrow>
         (\<exists>ext. h' = h @ ext) \<and> freshIn n h' \<and> (\<forall>y \<in> set ys. freshVal n h' y)"
proof (induction xs arbitrary: h ys)
  case Nil
  then show ?case by auto
next
  case (Cons x xs)
  from Cons.prems(3) obtain y h1 ys' where y: "f h x = Some (y, h1)"
    and r: "cloneItems f h1 xs = Some (ys', h')" and ys: "ys = y # ys'"
    by (auto split: option.splits)
  from f [OF Cons.prems(1,2) y] obtain e1 where e1: "h1 = h @ e1" "freshIn n h1" "freshVal n h1 y"
    by blast
  have "n \<le> length h1" using Cons.prems(1) e1(1) by simp
  from Cons.IH [OF this e1(2) r] obtain e2 where e2: "h' = h1 @ e2" "freshIn n h'"
     "\<forall>y \<in> set ys'. freshVal n h' y"
    by blast
  have "freshVal n h' y" using e1(3) e2(1) by (simp add: freshVal_mono)
  then show ?case using e1(1) e2 ys by auto
qed

lemma refs_update:
  "set (concat (map (refOf \<circ> snd) (AList.update k y copy)))
     \<subseteq> set (refOf y) \<union> set (concat (map (refOf \<circ> snd) copy))"
  by (induction copy) auto

lemma cloneProps_fresh:
  assumes f: "\<And>h x y h'. n \<le> length h \<Longrightarrow> freshIn n h \<Longrightarrow> f h x = Some (y, h') \<Longrightarrow>
                (\<exists>ext. h' = h @ ext) \<and> freshIn n h' \<and> freshVal n h' y"
  shows "n \<le> length h \<Longrightarrow> freshIn n h \<Longrightarrow> (\<forall>a \<in> set (refsOf (JObj copy)). n \<le> a \<and> a < length h) \<Longrightarrow>
         cloneProps f obj h keys copy = Some (copy', h') \<Longrightarrow>
         (\<exists>ext. h' = h @ ext) \<and> freshIn n h' \<and> (\<forall>a \<in> set (refsOf (JObj copy')). n \<le> a \<and> a < length h')"
proof (induction keys arbitrary: h copy)
  case Nil
  then show ?case by auto
next
  case (Cons key keys)
  from Cons.prems(4) obtain y h1 where y: "f h (readProp obj key) = Some (y, h1)"
    and r: "cloneProps f obj h1 keys (AList.update key y copy) = Some (copy', h')"
    by (auto split: option.splits)
  from f [OF Cons.prems(1,2) y] obtain e1 where e1: "h1 = h @ e1" "freshIn n h1" "freshVal n h1 y"
    by blast
  have n1: "n \<le> length h1" using Cons.prems(1) e1(1) by simp
  have c1: "\<forall>a \<in> set (refsOf (JObj (AList.update key y copy))). n \<le> a \<and> a < length h1"
  proof
    fix a assume "a \<in> set (refsOf (JObj (AList.update key y copy)))"
    then have "a \<in> set (refOf y) \<or> a \<in> set (refsOf (JObj copy))"
      using refs_update [of key y copy] by auto
    then show "n \<le> a \<and> a < length h1"
      using e1(3) Cons.prems(3) e1(1) by (fastforce simp: freshVal_def)
  qed
  from Cons.IH [OF n1 e1(2) c1 r] obtain e2 where "h' = h1 @ e2" "freshIn n h'"
     "\<forall>a \<in> set (refsOf (JObj copy')). n \<le> a \<and> a < length h'"
    by blast
  then show ?case using e1(1) by auto
qed

lemma freshIn_alloc:
  assumes "freshIn n h" and "n \<le> length h" and "\<forall>a \<in> set (refsOf ob). n \<le> a \<and> a < length h"
  shows "freshIn n (h @ [ob])" and "freshVal n (h @ [ob]) (JRef (length h))"
proof -
  have "n \<le> a \<and> a < Suc (length h)" if "x \<in> set (drop n h) \<or> x = ob" and "a \<in> set (refsOf x)" for x a
    using that assms(1,3) by (fastforce simp: freshIn_def)
  then show "freshIn n (h @ [ob])" using assms(2) by (auto simp: freshIn_def)
  show "freshVal n (h @ [ob]) (JRef (length h))" using assms(2) by (simp add: freshVal_def)
qed

lemma deepClone_fresh:
  "n \<le> length h \<Longrightarrow> freshIn n h \<Longrightarrow> deepClone d h v = Some (v', h') \<Longrightarrow>
   (\<exists>ext. h' = h @ ext) \<and> freshIn n h' \<and> freshVal n h' v'"
proof (induction d arbitrary: h v v' h')
  case 0
  then show ?case by simp
next
  case (Suc d)
  note IH = Suc.IH
  show ?case
  proof (cases v)
    case (JRef a)
    with Suc.prems(3) obtain ob where ob: "lookup h a = Some ob"
      by (auto split: option.splits)
    show ?thesis
    proof (cases ob)
      case (JDate t0)
      then have r: "v' = JRef (length h)" "h' = h @ [JDate t0]"
        using Suc.prems(3) JRef ob by (auto simp: alloc_def)
      show ?thesis
        unfolding r using freshIn_alloc [OF Suc.prems(2,1), of "JDate t0"] by auto
    next
      case (JArr items)
      with Suc.prems(3) JRef ob obtain ys h1 where
        c: "cloneItems (deepClone d) h items = Some (ys, h1)" and
        r: "v' = JRef (length h1)" "h' = h1 @ [JArr ys]"
        by (auto simp: alloc_def split: option.splits)
      have "(\<exists>ext. h1 = h @ ext) \<and> freshIn n h1 \<and> (\<forall>y \<in> set ys. freshVal n h1 y)"
        using Suc.prems(1,2) c
      proof (rule cloneItems_fresh [of n "deepClone d", rotated])
        show "(\<exists>ext. h'' = h0 @ ext) \<and> freshIn n h'' \<and> freshVal n h'' y"
          if "n \<le> length h0" "freshIn n h0" "deepClone d h0 x = Some (y, h'')" for h0 x y h''
          using that by (rule IH)
      qed
      then obtain ext where e: "h1 = h @ ext" "freshIn n h1" "\<forall>y \<in> set ys. freshVal n h1 y"
        by blast
      have n1: "n \<le> length h1" using Suc.prems(1) e(1) by simp
      have "\<forall>a \<in> set (refsOf (JArr ys)). n \<le> a \<and> a < length h1"
        using e(3) by (auto simp: freshVal_def)
      from freshIn_alloc [OF e(2) n1 this] show ?thesis
        unfolding r using e(1) by auto
    next
      case (JObj ps)
      with Suc.prems(3) JRef ob obtain copy h1 where
        c: "cloneProps (deepClone d) ps h (map fst ps) [] = Some (copy, h1)" and
        r: "v' = JRef (length h1)" "h' = h1 @ [JObj copy]"
        by (auto simp: alloc_def split: option.splits)
      have empty: "\<forall>a \<in> set (refsOf (JObj [])). n \<le> a \<and> a < length h" by simp
      have "(\<exists>ext. h1 = h @ ext) \<and> freshIn n h1 \<and>
            (\<forall>a \<in> set (refsOf (JObj copy)). n \<le> a \<and> a < length h1)"
        using Suc.prems(1,2) empty c
      proof (rule cloneProps_fresh [of n "deepClone d", rotated])
        show "(\<exists>ext. h'' = h0 @ ext) \<and> freshIn n h'' \<and> freshVal n h'' y"
          if "n \<le> length h0" "freshIn n h0" "deepClone d h0 x = Some (y, h'')" for h0 x y h''
          using that by (rule IH)
      qed
      then obtain ext where e: "h1 = h @ ext" "freshIn n h1"
        "\<forall>a \<in> set (refsOf (JObj copy)). n \<le> a \<and> a < length h1"
        by blast
      have n1: "n \<le> length h1" using Suc.prems(1) e(1) by simp
      from freshIn_alloc [OF e(2) n1 e(3)] show ?thesis
        unfolding r using e(1) by auto
    qed
  qed (use Suc.prems in \<open>auto simp: freshVal_def\<close>)
qed

text \<open>A deep clone shares nothing with the heap it was made in: the heap before the
  call is a prefix of the heap after it, the clone is a primitive or a reference to an
  object allocated by the call, and the objects allocated by the call refer only to
  one another.\<close>

lemma deepClone_shares_nothing:
  assumes "deepClone d h v = Some (v', h')"
  shows "(\<exists>ext. h' = h @ ext) \<and>
         (\<forall>a \<in> set (refOf v'). length h \<le> a \<and> a < length h') \<and>
         (\<forall>ob \<in> set (drop (length h) h'). \<forall>a \<in> set (refsOf ob). length h \<le> a \<and> a < length h')"
  using deepClone_fresh [of "length h" h d v v' h'] assms
  by (simp add: freshIn_def freshVal_def)


section \<open>Facts about the state store\<close>

text \<open>When no subscriber throws an error with an empty message, \<open>handleError\<close>
  returns for whatever a subscriber throws, and \<open>notify\<close> under a key that is not an
  inherited name calls every subscriber of the key and returns.\<close>

lemma callEach_returns:
  assumes "\<forall>cb m. map_of (throwers s) cb = Some m \<longrightarrow> m \<noteq> []"
  shows "callEach key nv ov cbs s
           = (None, s\<lparr>calls := calls s @ map (\<lambda>cb. Notified key cb nv ov) cbs\<rparr>)"
  using assms
proof (induction cbs arbitrary: s)
  case Nil
  then show ?case by simp
next
  case (Cons cb cbs)
  let ?s1 = "s\<lparr>calls := calls s @ [Notified key cb nv ov]\<rparr>"
  have "callEach key nv ov cbs ?s1
          = (None, ?s1\<lparr>calls := calls ?s1 @ map (\<lambda>cb. Notified key cb nv ov) cbs\<rparr>)"
    using Cons.prems by (intro Cons.IH) simp
  then show ?case
    using Cons.prems by (auto simp: Let_def isCriticalError_def split: option.splits)
qed

lemma notify_returns:
  assumes "\<forall>cb m. map_of (throwers s) cb = Some m \<longrightarrow> m \<noteq> []"
    and "key \<notin> set inheritedNames"
  shows "notify key nv ov s
           = (None, s\<lparr>calls := calls s @ map (\<lambda>cb. Notified key cb nv ov) (subscribersOf s key)\<rparr>)"
  using assms(2) callEach_returns [OF assms(1)]
  by (simp add: notify_def subscribersOf_def split: option.splits)

lemma notify_inherited_name:
  assumes "key \<in> set inheritedNames" and "map_of (subscribers s) key = None"
  shows "notify key nv ov s = (Some (TypeError ''forEach is not a function''), s)"
  using assms by (simp add: notify_def)

lemma notifyKeys_returns:
  assumes "\<forall>cb m. map_of (throwers s) cb = Some m \<longrightarrow> m \<noteq> []"
    and "\<forall>key \<in> set keys. key \<notin> set inheritedNames"
  shows "notifyKeys oldSt keys s
           = (None, s\<lparr>calls := calls s @
                concat (map (\<lambda>key. map (\<lambda>cb. Notified key cb (getProp (heap s) (state s) key)
                                                      (getProp (heap s) oldSt key))
                                       (subscribersOf s key)) keys)\<rparr>)"
  using assms
proof (induction keys arbitrary: s)
  case Nil
  then show ?case by simp
next
  case (Cons key keys)
  let ?s1 = "s\<lparr>calls := calls s @ map (\<lambda>cb. Notified key cb (getProp (heap s) (state s) key)
                                                      (getProp (heap s) oldSt key)) (subscribersOf s key)\<rparr>"
  have n: "notify key (getProp (heap s) (state s) key) (getProp (heap s) oldSt key) s = (None, ?s1)"
    using Cons.prems by (intro notify_returns) simp_all
  have s1: "heap ?s1 = heap s" "state ?s1 = state s" "subscribersOf ?s1 = subscribersOf s"
    by (simp_all add: subscribersOf_def fun_eq_iff)
  have "notifyKeys oldSt keys ?s1
          = (None, ?s1\<lparr>calls := calls ?s1 @
                concat (map (\<lambda>key. map (\<lambda>cb. Notified key cb (getProp (heap ?s1) (state ?s1) key)
                                                      (getProp (heap ?s1) oldSt key))
                                       (subscribersOf ?s1 key)) keys)\<rparr>)"
    using Cons.prems by (intro Cons.IH) simp_all
  then show ?case using n by (simp add: s1)
qed

lemmas store_eval = lookup_def alloc_def readProp_def getProp_def setProp_def objectKeys_def
  notify_def inheritedNames_def isCriticalError_def saveToHistory_def setState_def undo_def
  getState_def Let_def




lemma counterStoreSetTwice_reached:
  "\<exists>s1. setState 2 10 [(''count'', JNum 1)] ''a'' counterStore = Some (JRef 0, s1) \<and>
        setState 2 20 [(''count'', JNum 2)] ''b'' s1 = Some (JRef 0, counterStoreSetTwice)"
  by (simp add: store_eval eval_nat_numeral counterStore_def counterStoreSetTwice_def)

subsection \<open>getState\<close>

text \<open>
  C1. The claim fails on the code when a key is given. On a fresh store,
  \<open>getState('filters')\<close> returns the very reference held in the slot, and the store
  is left as it was (no clone is made); writing \<open>sort = 'oldest'\<close> through the
  returned reference changes what the store's own \<open>filters\<close> slot reads. Without a
  key \<open>getState\<close> does clone (\<open>deepClone_spec\<close>, \<open>deepClone_shares_nothing\<close>).
\<close>

theorem getState_key_returns_live_reference:
  "getState 3 (Some ''filters'') newStateService = Some (JRef 4, newStateService) \<and>
   getProp (heap newStateService) (state newStateService) ''filters'' = JRef 4 \<and>
   getProp (heap newStateService) (JRef 4) ''sort'' = JStr ''newest'' \<and>
   getProp (setProp (JRef 4) ''sort'' (JStr ''oldest'') (heap newStateService))
      (getProp (setProp (JRef 4) ''sort'' (JStr ''oldest'') (heap newStateService))
         (state newStateService) ''filters'') ''sort'' = JStr ''oldest''"
  by (simp add: store_eval newStateService_def)

subsection \<open>undo\<close>

text \<open>
  What \<open>undo\<close> does when no exception leaves \<open>notify\<close>. With fewer than two
  history entries it returns \<open>false\<close> and the store is unchanged. With at least two,
  the snapshot \<open>newState\<close> of the second-to-last entry a finite tree \<open>t\<close> within
  the depth allowed, no subscriber that throws an error with an empty message, and no
  top-level key of the snapshot among the inherited names, \<open>undo\<close> returns \<open>true\<close>;
  the state document then has the tree \<open>t\<close>; the last history entry is gone; and the
  calls made are, for every top-level key of the restored document in order, one call
  per subscriber of that key, with the restored slot as the new value and the slot of
  that entry's \<open>oldState\<close> as the old value.
\<close>

lemma objectKeys_deepValue:
  "deepValue d h v = Some t \<Longrightarrow> objectKeys h v = (case t of TObj ps \<Rightarrow> map fst ps | _ \<Rightarrow> [])"
  by (cases d; cases v)
     (auto simp: objectKeys_def dest: propValues_keys split: option.splits jsobj.splits if_splits)

lemma undo_short_history:
  "length (history s) < 2 \<Longrightarrow> undo depth s = Some (Inr False, s)"
  by (simp add: undo_def)

lemma undo_restores_when_notify_returns:
  assumes "2 \<le> length (history s)"
    and "deepValue depth (heap s) (newState (history s ! (length (history s) - 2))) = Some t"
    and "\<forall>cb m. map_of (throwers s) cb = Some m \<longrightarrow> m \<noteq> []"
    and "\<forall>key \<in> set (objectKeys (heap s) (newState (history s ! (length (history s) - 2)))).
           key \<notin> set inheritedNames"
  shows "\<exists>s'. undo depth s = Some (Inr True, s') \<and>
            deepValue depth (heap s') (state s') = Some t \<and>
            history s' = butlast (history s) \<and>
            calls s' = calls s @
              concat (map (\<lambda>key. map (\<lambda>cb. Notified key cb
                                             (getProp (heap s') (state s') key)
                                             (getProp (heap s') (oldState (history s ! (length (history s) - 2))) key))
                                      (subscribersOf s key))
                          (objectKeys (heap s') (state s')))"
proof -
  let ?prev = "history s ! (length (history s) - 2)"
  from deepClone_spec [OF assms(2)]
  obtain st ext where cl: "deepClone depth (heap s) (newState ?prev) = Some (st, heap s @ ext)"
      "deepValue depth (heap s @ ext) st = Some t"
    by blast
  let ?s1 = "s\<lparr>heap := heap s @ ext, state := st, history := butlast (history s)\<rparr>"
  let ?keys = "objectKeys (heap s @ ext) st"
  let ?s' = "?s1\<lparr>calls := calls ?s1 @
          concat (map (\<lambda>key. map (\<lambda>cb. Notified key cb (getProp (heap ?s1) (state ?s1) key)
                                           (getProp (heap ?s1) (oldState ?prev) key))
                                 (subscribersOf ?s1 key)) ?keys)\<rparr>"
  have keys: "?keys = objectKeys (heap s) (newState ?prev)"
    using objectKeys_deepValue [OF cl(2)] objectKeys_deepValue [OF assms(2)] by simp
  have nk: "notifyKeys (oldState ?prev) ?keys ?s1 = (None, ?s')"
    using assms(3,4) keys by (intro notifyKeys_returns) simp_all
  have u: "undo depth s = Some (Inr True, ?s')"
    using assms(1) cl(1) nk by (simp add: undo_def Let_def)
  have sub: "subscribersOf ?s1 = subscribersOf s" by (simp add: subscribersOf_def fun_eq_iff)
  show ?thesis unfolding u using cl(2) sub by simp
qed

text \<open>On the small stores: \<open>undo\<close> with no history, and after two \<open>setState\<close>.\<close>

lemma undo_counterStore:
  "undo 2 counterStore = Some (Inr False, counterStore) \<and>
   (\<exists>s'. undo 2 counterStoreSetTwice = Some (Inr True, s') \<and>
      deepValue 2 (heap s') (state s') = Some (TObj [(''count'', TPrim (JNum 1))]) \<and>
      history s' = [\<lparr>h_timestamp = 10, oldState = JRef 2, newState = JRef 3, h_source = ''a''\<rparr>] \<and>
      calls s' = calls counterStoreSetTwice @ [Notified ''count'' 7 (JNum 1) (JNum 0)])"
proof -
  have short: "undo 2 counterStore = Some (Inr False, counterStore)"
    by (rule undo_short_history) (simp add: counterStore_def)
  have long: "2 \<le> length (history counterStoreSetTwice)"
    and tree: "deepValue 2 (heap counterStoreSetTwice)
        (newState (history counterStoreSetTwice ! (length (history counterStoreSetTwice) - 2)))
        = Some (TObj [(''count'', TPrim (JNum 1))])"
    and quiet: "\<forall>cb m. map_of (throwers counterStoreSetTwice) cb = Some m \<longrightarrow> m \<noteq> []"
    and keys: "\<forall>key \<in> set (objectKeys (heap counterStoreSetTwice)
        (newState (history counterStoreSetTwice ! (length (history counterStoreSetTwice) - 2)))).
           key \<notin> set inheritedNames"
    by (simp_all add: counterStoreSetTwice_def eval_nat_numeral lookup_def objectKeys_def
        inheritedNames_def)
  from undo_restores_when_notify_returns [OF long tree quiet keys]
  obtain s' where s': "undo 2 counterStoreSetTwice = Some (Inr True, s')"
    "deepValue 2 (heap s') (state s') = Some (TObj [(''count'', TPrim (JNum 1))])"
    "history s' = butlast (history counterStoreSetTwice)"
    by blast
  have "calls s' = calls counterStoreSetTwice @ [Notified ''count'' 7 (JNum 1) (JNum 0)]"
    using s'(1) by (auto simp: store_eval eval_nat_numeral counterStoreSetTwice_def)
  then show ?thesis using short s' by (auto simp: counterStoreSetTwice_def)
qed

text \<open>
  C8. The claim fails on the code when a subscriber throws an error whose message is
  empty. On a fresh store, subscriber 8 subscribes to \<open>storeSettings\<close>, subscriber 7,
  which throws \<open>new Error('')\<close>, to \<open>currentUser\<close>, and subscriber 9 to \<open>cart\<close>;
  then \<open>setState({ storeSettings: 1 }, 'a')\<close> and \<open>setState({ storeSettings: 2 }, 'b')\<close>
  leave two history entries. \<open>undo()\<close> restores the document (\<open>storeSettings\<close> reads
  1 again), pops the last entry, calls subscriber 8 and then subscriber 7; the error
  that subscriber 7 throws is caught and handed to \<open>handleError\<close>, whose
  \<open>isCriticalError\<close> raises a \<open>TypeError\<close> that leaves \<open>undo\<close>: \<open>undo\<close> does not
  return \<open>true\<close>, and the keys after \<open>currentUser\<close> are not notified, so subscriber
  9 of \<open>cart\<close> is never called.
\<close>

theorem undo_throws_when_subscriber_throws:
  "\<exists>s1 s2 s3 s4 s5 s'.
     subscribe ''storeSettings'' 8 (newStateService\<lparr>throwers := [(7, [])]\<rparr>) = Inr s1 \<and>
     subscribe ''currentUser'' 7 s1 = Inr s2 \<and>
     subscribe ''cart'' 9 s2 = Inr s3 \<and>
     setState 4 10 [(''storeSettings'', JNum 1)] ''a'' s3 = Some (JRef 8, s4) \<and>
     setState 4 20 [(''storeSettings'', JNum 2)] ''b'' s4 = Some (JRef 8, s5) \<and>
     length (history s5) = 2 \<and>
     getProp (heap s5) (state s5) ''storeSettings'' = JNum 2 \<and>
     undo 4 s5 = Some (Inl (TypeError ''toLowerCase is not a function''), s') \<and>
     getProp (heap s') (state s') ''storeSettings'' = JNum 1 \<and>
     history s' = butlast (history s5) \<and>
     objectKeys (heap s') (state s')
       = [''products'', ''categories'', ''storeSettings'', ''shippingStates'', ''currentUser'',
          ''cart'', ''filters'', ''ui''] \<and>
     subscribersOf s' ''cart'' = [9] \<and>
     calls s' = calls s5 @ [Notified ''storeSettings'' 8 (JNum 1) JNull,
                            Notified ''currentUser'' 7 JNull JNull]"
  by (simp add: store_eval subscribe_def subscribersOf_def newStateService_def eval_nat_numeral)

subsection \<open>setState with the current value\<close>







section \<open>Facts about the write queue\<close>

lemma qrun_snoc:
  "qrun (es @ [e]) s = (case qrun es s of None \<Rightarrow> None | Some s' \<Rightarrow> qstep e s')"
  by (induction es arbitrary: s) (auto split: option.splits)

lemma submitted_snoc:
  "submitted (es @ [e]) = submitted es @ (case e of QueueRequest r \<Rightarrow> [r] | _ \<Rightarrow> [])"
  by (induction es rule: submitted.induct) (auto split: qinput.splits)

text \<open>Starting the next request keeps the order: used when the queue is entered from
  idle and when a delay ends.\<close>

lemma qorder_start:
  assumes "qorder sub s" and "requestQueue s = r # rest"
    and "length (settled s) = length (started s)"
    and "settled s \<noteq> [] \<longrightarrow> settledAt (last (settled s)) + 100 \<le> qclock s"
  shows "qorder sub (s\<lparr>requestQueue := rest, started := started s @ [(r, qclock s)], loops := l\<rparr>)"
proof -
  have t: "i < length (settled s) \<and>
           settledAt (settled s ! i) + 100 \<le> snd ((started s @ [(r, qclock s)]) ! Suc i)"
    if "Suc i < Suc (length (started s))" for i
  proof (cases "Suc i < length (started s)")
    case True
    then show ?thesis using assms(1) by (simp add: qorder_def nth_append)
  next
    case False
    then have i: "Suc i = length (started s)" using that by simp
    then have ne: "settled s \<noteq> []" and li: "i = length (settled s) - 1"
      using assms(3) by auto
    then have "settled s ! i = last (settled s)" by (simp add: last_conv_nth)
    then show ?thesis using assms(4) ne i assms(3) by (simp add: nth_append)
  qed
  show ?thesis
    unfolding qorder_def using assms(1,2,3) t by (auto simp: qorder_def take_map)
qed

lemma qinv_step:
  assumes "qinv sub s" and "qstep e s = Some s'"
  shows "qinv (sub @ (case e of QueueRequest r \<Rightarrow> [r] | _ \<Rightarrow> [])) s'"
proof -
  from assms(1) have ord: "qorder sub s" and shape: "qidle s \<or> qflying s \<or> qsleeping s"
    by (auto simp: qinv_def)
  show ?thesis
  proof (cases e)
    case (Elapse ms)
    then have s': "s' = s\<lparr>qclock := qclock s + int ms\<rparr>" using assms(2) by simp
    have "qorder sub s'" using ord by (simp add: s' qorder_def)
    moreover have "qidle s' \<or> qflying s' \<or> qsleeping s'"
      using shape by (auto simp: s' qidle_def qflying_def qsleeping_def)
    ultimately show ?thesis using Elapse by (simp add: qinv_def)
  next
    case (QueueRequest r)
    show ?thesis
    proof (cases "processing s")
      case True
      then have s': "s' = s\<lparr>requestQueue := requestQueue s @ [r]\<rparr>"
        using assms(2) QueueRequest by (simp add: queueRequest_def processQueue_def)
      have "qorder (sub @ [r]) s'" using ord by (auto simp: s' qorder_def)
      moreover have "qflying s' \<or> qsleeping s'"
        using shape True by (auto simp: s' qidle_def qflying_def qsleeping_def)
      ultimately show ?thesis using QueueRequest by (simp add: qinv_def)
    next
      case False
      then have idle: "qidle s" using shape by (auto simp: qflying_def qsleeping_def)
      let ?s1 = "s\<lparr>requestQueue := requestQueue s @ [r], processing := True, loops := [Running]\<rparr>"
      have s': "s' = ?s1\<lparr>requestQueue := [], started := started ?s1 @ [(r, qclock ?s1)],
                          loops := [AwaitingRequest r]\<rparr>"
        using assms(2) QueueRequest False idle
        by (simp add: queueRequest_def processQueue_def loopHead_def qidle_def)
      have o1: "qorder (sub @ [r]) ?s1" using ord idle by (auto simp: qorder_def qidle_def)
      have "qorder (sub @ [r]) s'"
        unfolding s'
      proof (rule qorder_start [OF o1])
        show "requestQueue ?s1 = r # []" using idle by (simp add: qidle_def)
        show "length (settled ?s1) = length (started ?s1)" using idle by (simp add: qidle_def)
        show "settled ?s1 \<noteq> [] \<longrightarrow> settledAt (last (settled ?s1)) + 100 \<le> qclock ?s1"
          using idle by (simp add: qidle_def)
      qed
      moreover have "qflying s'" using idle by (simp add: s' qflying_def qidle_def)
      ultimately show ?thesis using QueueRequest by (simp add: qinv_def)
    qed
  next
    case (RequestSettles i ok)
    from assms(2) RequestSettles obtain r where i: "i < length (loops s)" "loops s ! i = AwaitingRequest r"
      by (auto split: if_splits suspended.splits)
    then have fl: "qflying s" and l: "loops s = [AwaitingRequest r]" and i0: "i = 0"
      using shape by (auto simp: qidle_def qflying_def qsleeping_def)
    have s': "s' = s\<lparr>settled := settled s @ [(r, ok, qclock s)],
                      loops := [AwaitingDelay (qclock s + 100)]\<rparr>"
      using assms(2) RequestSettles l i0 by simp
    have len: "length (started s) = Suc (length (settled s))" using fl by (simp add: qflying_def)
    have "started s \<noteq> []" using len by auto
    then have "last (started s) = started s ! length (settled s)"
      using len by (simp add: last_conv_nth)
    then have r: "fst (started s ! length (settled s)) = r"
      using fl l by (simp add: qflying_def)
    have "take (Suc (length (settled s))) (map fst (started s))
            = take (length (settled s)) (map fst (started s)) @ [map fst (started s) ! length (settled s)]"
      using len by (intro take_Suc_conv_app_nth) simp
    then have tk: "take (length (settled s)) (map fst (started s)) @ [fst (started s ! length (settled s))]
            = map fst (started s)"
      using len by simp
    have "qorder sub s'"
      using ord len r tk unfolding qorder_def s'
      by (auto simp: nth_append)
    moreover have "qsleeping s'" using fl by (simp add: s' qsleeping_def qflying_def settledAt_def)
    ultimately show ?thesis using RequestSettles by (simp add: qinv_def)
  next
    case (DelayEnds i)
    from assms(2) DelayEnds obtain t where i: "i < length (loops s)" "loops s ! i = AwaitingDelay t"
        and due: "t \<le> qclock s" and s': "s' = loopHead i s"
      by (auto split: if_splits suspended.splits)
    then have sl: "qsleeping s" and i0: "i = 0" and t: "t = settledAt (last (settled s)) + 100"
      using shape by (auto simp: qidle_def qflying_def qsleeping_def)
    show ?thesis
    proof (cases "requestQueue s")
      case Nil
      then have "s' = s\<lparr>processing := False, loops := []\<rparr>"
        using s' i0 sl by (simp add: loopHead_def qsleeping_def)
      then have s'': "s' = s\<lparr>processing := False, loops := []\<rparr>" .
      have "qorder sub s' = qorder sub s" by (simp add: s'' qorder_def)
      then have "qorder sub s'" using ord by simp
      moreover have "qidle s'"
        using sl Nil due t by (simp add: s'' qidle_def qsleeping_def)
      ultimately show ?thesis using DelayEnds by (simp add: qinv_def)
    next
      case (Cons r rest)
      then have s'': "s' = s\<lparr>requestQueue := rest, started := started s @ [(r, qclock s)],
                             loops := [AwaitingRequest r]\<rparr>"
        using s' i0 sl by (simp add: loopHead_def qsleeping_def)
      have "qorder sub s'"
        unfolding s'' using ord Cons sl due t
        by (intro qorder_start) (simp_all add: qsleeping_def)
      moreover have "qflying s'" using sl by (simp add: s'' qflying_def qsleeping_def)
      ultimately show ?thesis using DelayEnds by (simp add: qinv_def)
    qed
  qed
qed

lemma qinv_run:
  "qrun evs newWriteQueue = Some s \<Longrightarrow> qinv (submitted evs) s"
proof (induction evs arbitrary: s rule: rev_induct)
  case Nil
  then have "s = newWriteQueue" by simp
  then show ?case
    by (simp add: qinv_def qorder_def qidle_def newWriteQueue_def)
next
  case (snoc e evs)
  from snoc.prems obtain s0 where s0: "qrun evs newWriteQueue = Some s0" and st: "qstep e s0 = Some s"
    by (auto simp: qrun_snoc split: option.splits)
  from qinv_step [OF snoc.IH [OF s0] st] show ?case
    by (simp add: submitted_snoc)
qed

text \<open>The queue never stalls: while a submitted request is unsettled, either the
  request in flight can settle, or the delay in progress ends once 100 ms have passed.\<close>

lemma write_queue_never_stalls:
  assumes "qrun evs newWriteQueue = Some s" and "length (settled s) < length (submitted evs)"
  shows "(\<exists>s'. qstep (RequestSettles 0 ok) s = Some s') \<or>
         (\<exists>s1 s'. qstep (Elapse 100) s = Some s1 \<and> qstep (DelayEnds 0) s1 = Some s')"
proof -
  from qinv_run [OF assms(1)] have ord: "qorder (submitted evs) s"
    and shape: "qidle s \<or> qflying s \<or> qsleeping s"
    by (auto simp: qinv_def)
  have "length (submitted evs) = length (started s) + length (requestQueue s)"
    using ord by (auto simp: qorder_def dest: arg_cong [where f = length])
  then have "\<not> qidle s" using assms(2) by (auto simp: qidle_def)
  then consider "qflying s" | "qsleeping s" using shape by blast
  then show ?thesis
  proof cases
    case 1
    then show ?thesis by (simp add: qflying_def)
  next
    case 2
    then show ?thesis by (simp add: qsleeping_def)
  qed
qed


text \<open>
  C7. In every state the write queue can reach from its initial state, whatever the
  order and timing of submissions, settlements and timers: the requests settled so
  far are the first submissions, in submission order, and so are the requests
  started; at most one request is started and not yet settled; each request but the
  first is started at least 100 ms after the request before it settled; and pending
  requests always have an invocation of \<open>processQueue\<close> alive to serve them.
\<close>

theorem write_queue_fifo:
  assumes "qrun evs newWriteQueue = Some s"
  shows "map fst (settled s) = take (length (settled s)) (submitted evs) \<and>
         map fst (started s) = take (length (started s)) (submitted evs) \<and>
         length (settled s) \<le> length (started s) \<and>
         length (started s) \<le> Suc (length (settled s)) \<and>
         (\<forall>i. Suc i < length (started s) \<longrightarrow>
              i < length (settled s) \<and> settledAt (settled s ! i) + 100 \<le> snd (started s ! Suc i)) \<and>
         (requestQueue s \<noteq> [] \<longrightarrow> processing s \<and> length (loops s) = 1)"
proof -
  from qinv_run [OF assms] have ord: "qorder (submitted evs) s"
    and shape: "qidle s \<or> qflying s \<or> qsleeping s"
    by (auto simp: qinv_def)
  have len: "length (settled s) \<le> length (started s)" "length (started s) \<le> Suc (length (settled s))"
    using shape by (auto simp: qidle_def qflying_def qsleeping_def)
  have "map fst (started s) @ requestQueue s = submitted evs"
    using ord by (simp add: qorder_def)
  then have "take (length (map fst (started s))) (submitted evs) = map fst (started s)"
    by (metis append_eq_conv_conj)
  then have st: "map fst (started s) = take (length (started s)) (submitted evs)"
    by simp
  have "map fst (settled s) = take (length (settled s)) (map fst (started s))"
    using ord by (simp add: qorder_def)
  also have "\<dots> = take (length (settled s)) (take (length (started s)) (submitted evs))"
    using st by simp
  also have "\<dots> = take (length (settled s)) (submitted evs)"
    using len(1) by (simp add: min_def)
  finally have se: "map fst (settled s) = take (length (settled s)) (submitted evs)" .
  have tm: "\<forall>i. Suc i < length (started s) \<longrightarrow>
              i < length (settled s) \<and> settledAt (settled s ! i) + 100 \<le> snd (started s ! Suc i)"
    using ord by (simp add: qorder_def)
  have alive: "requestQueue s \<noteq> [] \<longrightarrow> processing s \<and> length (loops s) = 1"
    using shape by (auto simp: qidle_def qflying_def qsleeping_def)
  show ?thesis using se st len tm alive by blast
qed

theorem write_queue_fifo_witness:
  "map_option settled (qrun threeWrites newWriteQueue)
     = Some [(1, True, 500), (2, False, 605), (3, True, 775)] \<and>
   map_option started (qrun threeWrites newWriteQueue)
     = Some [(1, 0), (2, 600), (3, 725)] \<and>
   submitted threeWrites = [1, 2, 3]"
proof -
  have run: "qrun threeWrites newWriteQueue =
      Some \<lparr>requestQueue = [], processing = True, loops = [AwaitingDelay 875], qclock = 775,
            started = [(1, 0), (2, 600), (3, 725)],
            settled = [(1, True, 500), (2, False, 605), (3, True, 775)]\<rparr>"
    by (simp add: threeWrites_def newWriteQueue_def queueRequest_def processQueue_def loopHead_def)
  have sub: "submitted threeWrites = [1, 2, 3]" by (simp add: threeWrites_def)
  from write_queue_fifo [OF run]
  have "map fst (settled (the (qrun threeWrites newWriteQueue)))
          = take (length (settled (the (qrun threeWrites newWriteQueue)))) (submitted threeWrites)"
    by (simp add: run)
  then show ?thesis using run sub by simp
qed


end
